theory Spec2Isabelle
  imports Complex_Main
begin

section \<open>JavaScript strings and the characters the patterns look at\<close>

text \<open>
  A JavaScript string is a sequence of code units; it is modelled as a \<open>string\<close>
  (a \<open>char list\<close>). The three regular expressions of the sources only distinguish the
  ASCII characters below; every other code unit behaves like any character that matches
  nothing. Under the \<open>i\<close> flag (without \<open>u\<close>) a pattern character matches exactly its
  two ASCII case variants, and the class \<open>[A-F0-9]\<close> matches \<open>0-9\<close>, \<open>A-F\<close> and \<open>a-f\<close>;
  \<open>\d\<close> matches \<open>0-9\<close> only.
\<close>

definition is_digit :: "char \<Rightarrow> bool" where
  "is_digit c = (c \<in> set ''0123456789'')"

definition is_hex :: "char \<Rightarrow> bool" where
  "is_hex c = (c \<in> set ''0123456789ABCDEFabcdef'')"

definition backslash :: char where
  "backslash = CHR 0x5C"

definition toUpperCase_char :: "char \<Rightarrow> char" where
  "toUpperCase_char c =
     (case map_of (zip ''abcdefghijklmnopqrstuvwxyz'' ''ABCDEFGHIJKLMNOPQRSTUVWXYZ'') c of
        Some u \<Rightarrow> u
      | None \<Rightarrow> c)"

text \<open>
  \<open>String.prototype.toUpperCase\<close> on ASCII text, where it maps \<open>a-z\<close> to \<open>A-Z\<close> and
  nothing else. The source applies it to the captured group only, which holds digits,
  \<open>&\<close> and hex letters.
\<close>

definition toUpperCase :: "string \<Rightarrow> string" where
  "toUpperCase s = map toUpperCase_char s"

definition ci_eq :: "char \<Rightarrow> char \<Rightarrow> bool" where
  "ci_eq c p = (toUpperCase_char c = toUpperCase_char p)"

section \<open>Numbers: \<open>parseInt(digits, 10)\<close> and \<open>String(number)\<close>\<close>

text \<open>
  \<open>parseInt\<close> returns a Number, an IEEE double. On a non-empty run of decimal digits it
  is the mathematical integer the digits denote, rounded to the nearest double (ties to
  even), or \<open>Infinity\<close> on overflow. (ECMA-262 lets an engine replace the digits after
  the 20th significant one by zeros before rounding; the model rounds the exact value, as
  V8 does. The inputs evaluated below have at most 16 significant digits or only zeros
  after the first, where the choice makes no difference.) \<open>intnum\<close> holds what
  \<open>parseInt\<close> can return here: a natural number that is a double, or \<open>Infinity\<close>.
\<close>

datatype intnum = Finite nat | Infinity

definition digit_val :: "char \<Rightarrow> nat" where
  "digit_val c = of_char c - 48"

definition digits_val :: "string \<Rightarrow> nat" where
  "digits_val ds = foldl (\<lambda>acc c. 10 * acc + digit_val c) 0 ds"

fun bitlen :: "nat \<Rightarrow> nat" where
  "bitlen n = (if n = 0 then 0 else Suc (bitlen (n div 2)))"

declare bitlen.simps [simp del]

text \<open>
  Rounding a natural number to a double: numbers below \<open>2^53\<close> are exact; a larger one
  keeps its 53 leading bits \<open>q\<close>, rounded to nearest, ties to even, and overflows to
  \<open>Infinity\<close> from \<open>2^1024\<close> on.
\<close>

definition round_double :: "nat \<Rightarrow> intnum" where
  "round_double v =
     (if v < 2 ^ 53 then Finite v
      else
        let e = bitlen v - 53;
            q = v div 2 ^ e;
            r = v mod 2 ^ e;
            h = 2 ^ (e - 1);
            q' = (if h < r \<or> (r = h \<and> odd q) then q + 1 else q);
            x = q' * 2 ^ e
        in if 2 ^ 1024 \<le> x then Infinity else Finite x)"

definition parseInt10 :: "string \<Rightarrow> intnum" where
  "parseInt10 ds = round_double (digits_val ds)"

text \<open>
  The decimal digits of a natural number, most significant first; \<open>digit_char\<close> is only
  applied to numbers below 10, and \<open>decimal n\<close> is never empty.
\<close>

definition digit_char :: "nat \<Rightarrow> char" where
  "digit_char d = ''0123456789'' ! d"

fun decimal :: "nat \<Rightarrow> string" where
  "decimal n = (if n < 10 then [digit_char n] else decimal (n div 10) @ [digit_char (n mod 10)])"

declare decimal.simps [simp del]

text \<open>
  \<open>Number::toString\<close> (ECMA-262) writes a positive double \<open>x\<close> from integers \<open>n\<close>, \<open>k\<close>,
  \<open>s\<close> with \<open>10^(k-1) \<le> s < 10^k\<close>, \<open>s * 10^(n-k)\<close> rounding to \<open>x\<close> and \<open>k\<close> as small as
  possible; among several \<open>s\<close> the one whose \<open>s * 10^(n-k)\<close> is closest to \<open>x\<close>, the even
  one on a tie. For an integer \<open>x\<close> with \<open>d\<close> digits, \<open>n\<close> is \<open>d\<close> or \<open>d + 1\<close> (the latter
  when a power of ten rounds down to \<open>x\<close>), \<open>k \<le> d\<close> (\<open>x\<close> itself is a candidate with
  \<open>k = d\<close>), and the closest multiple of \<open>10^(n-k)\<close> is the one just below or just above
  \<open>x\<close>: \<open>candidates x k\<close> lists these, \<open>shortest_from\<close> tries \<open>k = 1, 2, ...\<close> in turn.
\<close>

definition candidates :: "nat \<Rightarrow> nat \<Rightarrow> (nat \<times> nat) list" where
  "candidates x k =
     [(n, s).
        n \<leftarrow> [length (decimal x), length (decimal x) + 1],
        s \<leftarrow> [x div 10 ^ (n - k), x div 10 ^ (n - k) + 1],
        k \<le> n \<and> 10 ^ (k - 1) \<le> s \<and> s < 10 ^ k \<and> round_double (s * 10 ^ (n - k)) = Finite x]"

definition dist :: "nat \<Rightarrow> nat \<Rightarrow> nat" where
  "dist a b = (if a \<le> b then b - a else a - b)"

definition closer :: "nat \<Rightarrow> nat \<Rightarrow> (nat \<times> nat) \<Rightarrow> (nat \<times> nat) \<Rightarrow> (nat \<times> nat)" where
  "closer x k a b =
     (let da = dist (snd a * 10 ^ (fst a - k)) x;
          db = dist (snd b * 10 ^ (fst b - k)) x
      in if db < da \<or> (db = da \<and> even (snd b) \<and> odd (snd a)) then b else a)"

fun closest :: "nat \<Rightarrow> nat \<Rightarrow> (nat \<times> nat) list \<Rightarrow> (nat \<times> nat) option" where
  "closest x k [] = None"
| "closest x k (c # cs) =
     (case closest x k cs of None \<Rightarrow> Some c | Some b \<Rightarrow> Some (closer x k c b))"

function shortest_from :: "nat \<Rightarrow> nat \<Rightarrow> nat \<times> nat \<times> nat" where
  "shortest_from x k =
     (if length (decimal x) < k then (length (decimal x), length (decimal x), x)
      else case closest x k (candidates x k) of
             Some (n, s) \<Rightarrow> (n, k, s)
           | None \<Rightarrow> shortest_from x (Suc k))"
  by pat_completeness auto

termination
  by (relation "measure (\<lambda>(x, k). Suc (length (decimal x)) - k)") auto

declare shortest_from.simps [simp del]

definition number_toString :: "intnum \<Rightarrow> string" where
  "number_toString v =
     (case v of
        Infinity \<Rightarrow> ''Infinity''
      | Finite x \<Rightarrow>
          if x = 0 then ''0''
          else
            (case shortest_from x 1 of
               (n, k, s) \<Rightarrow>
                 if n \<le> 21 then decimal s @ replicate (n - k) (CHR ''0'')
                 else if k = 1 then decimal s @ ''e+'' @ decimal (n - 1)
                 else hd (decimal s) # ''.'' @ tl (decimal s) @ ''e+'' @ decimal (n - 1)))"

text \<open>
  The spec's words for the result of \<open>extractPortIndex\<close>, "the digits with leading
  zeros stripped": the run of digits without its leading zeros, or \<open>0\<close> when nothing is
  left. It is the yardstick of claim C7 and not part of the program.
\<close>

definition strip_leading_zeros :: "string \<Rightarrow> string" where
  "strip_leading_zeros ds =
     (if dropWhile (\<lambda>c. c = CHR ''0'') ds = [] then ''0'' else dropWhile (\<lambda>c. c = CHR ''0'') ds)"

section \<open>Key Normalizer (\<open>lib/mapper.js\<close>)\<close>

text \<open>
  \<open>/\\(\d+&[A-F0-9]+)&/i\<close> tried at the head of a string. The greedy \<open>\d+\<close> takes the
  whole run of digits: giving one back would leave a digit where \<open>&\<close> is required, so
  backtracking never succeeds; the same holds for the run of hex digits. The result is
  the captured group.
\<close>

definition chip_match_at :: "string \<Rightarrow> string option" where
  "chip_match_at s =
     (case s of
        [] \<Rightarrow> None
      | c # r \<Rightarrow>
          if c \<noteq> backslash then None
          else
            let ds = takeWhile is_digit r; r1 = dropWhile is_digit r
            in if ds = [] then None
               else
                 (case r1 of
                    [] \<Rightarrow> None
                  | a # r2 \<Rightarrow>
                      if a \<noteq> CHR ''&'' then None
                      else
                        let hs = takeWhile is_hex r2; r3 = dropWhile is_hex r2
                        in if hs = [] then None
                           else
                             (case r3 of
                                [] \<Rightarrow> None
                              | b # _ \<Rightarrow>
                                  if b = CHR ''&'' then Some (ds @ ''&'' @ hs) else None)))"

text \<open>\<open>String.prototype.match\<close> without the \<open>g\<close> flag: the leftmost match.\<close>

fun chip_search :: "string \<Rightarrow> string option" where
  "chip_search [] = None"
| "chip_search (c # cs) =
     (case chip_match_at (c # cs) of Some g \<Rightarrow> Some g | None \<Rightarrow> chip_search cs)"

text \<open>
  The location and the parent of an observation are strings or absent (\<open>null\<close>,
  \<open>undefined\<close>), hence a \<open>string option\<close>; \<open>!parent\<close> also holds for the empty string.
\<close>

definition extractChipPrefix :: "string option \<Rightarrow> string option" where
  "extractChipPrefix parent =
     (case parent of
        None \<Rightarrow> None
      | Some p \<Rightarrow>
          if p = [] then None
          else (case chip_search p of None \<Rightarrow> None | Some g \<Rightarrow> Some (toUpperCase g)))"

text \<open>\<open>/Port_#(\d+)/i\<close> tried at the head of a string; the result is the captured digits.\<close>

definition port_match_at :: "string \<Rightarrow> string option" where
  "port_match_at s =
     (case s of
        c1 # c2 # c3 # c4 # c5 # c6 # r \<Rightarrow>
          if ci_eq c1 (CHR ''P'') \<and> ci_eq c2 (CHR ''o'') \<and> ci_eq c3 (CHR ''r'') \<and>
             ci_eq c4 (CHR ''t'') \<and> c5 = CHR ''_'' \<and> c6 = CHR ''#'' \<and>
             takeWhile is_digit r \<noteq> []
          then Some (takeWhile is_digit r)
          else None
      | _ \<Rightarrow> None)"

fun port_search :: "string \<Rightarrow> string option" where
  "port_search [] = None"
| "port_search (c # cs) =
     (case port_match_at (c # cs) of Some g \<Rightarrow> Some g | None \<Rightarrow> port_search cs)"

definition extractPortIndex :: "string option \<Rightarrow> string option" where
  "extractPortIndex location =
     (case location of
        None \<Rightarrow> None
      | Some l \<Rightarrow>
          if l = [] then None
          else (case port_search l of
                  None \<Rightarrow> None
                | Some ds \<Rightarrow> Some (number_toString (parseInt10 ds))))"

text \<open>\<open>!chipPrefix || !portIndex\<close>: absent or the empty string.\<close>

definition normalizeLocation :: "string option \<Rightarrow> string option \<Rightarrow> string option" where
  "normalizeLocation location parent =
     (case (extractChipPrefix parent, extractPortIndex location) of
        (Some chipPrefix, Some portIndex) \<Rightarrow>
          if chipPrefix = [] \<or> portIndex = [] then None
          else Some (chipPrefix @ ''|'' @ portIndex)
      | _ \<Rightarrow> None)"

section \<open>JavaScript values\<close>

text \<open>
  A finite Number is given by its rational value (\<open>-0\<close> and \<open>+0\<close> are both \<open>Fin 0\<close>:
  \<open>Number.isInteger\<close>, \<open><\<close>, \<open>>\<close> and truthiness do not tell them apart). Objects are
  lists of own properties in the order of \<open>Object.keys\<close>.
\<close>

datatype jsnum = Fin rat | NaN | PosInf | NegInf

datatype jsval =
    JUndefined
  | JNull
  | JBool bool
  | JNumber jsnum
  | JString string
  | JArray "jsval list"
  | JObject "(string \<times> jsval) list"

fun truthy :: "jsval \<Rightarrow> bool" where
  "truthy JUndefined = False"
| "truthy JNull = False"
| "truthy (JBool b) = b"
| "truthy (JNumber (Fin q)) = (q \<noteq> 0)"
| "truthy (JNumber NaN) = False"
| "truthy (JNumber PosInf) = True"
| "truthy (JNumber NegInf) = True"
| "truthy (JString s) = (s \<noteq> [])"
| "truthy (JArray xs) = True"
| "truthy (JObject kvs) = True"

text \<open>\<open>a || b\<close>\<close>

definition js_or :: "jsval \<Rightarrow> jsval \<Rightarrow> jsval" where
  "js_or a b = (if truthy a then a else b)"

fun isInteger :: "jsval \<Rightarrow> bool" where
  "isInteger (JNumber (Fin q)) = (of_int (floor q) = q)"
| "isInteger _ = False"

text \<open>
  \<open>!Number.isInteger(v) || v < 1 || v > 7\<close>: the comparisons are only reached for an
  integral Number.
\<close>

fun port_out_of_range :: "jsval \<Rightarrow> bool" where
  "port_out_of_range (JNumber (Fin q)) = (\<not> isInteger (JNumber (Fin q)) \<or> q < 1 \<or> 7 < q)"
| "port_out_of_range _ = True"

text \<open>
  Own-property operations of a plain object: \<open>obj[key]\<close>, \<open>key in obj\<close>,
  \<open>obj[key] = v\<close> (an existing key keeps its place, a new one goes last) and
  \<open>Object.keys(obj)\<close>. The keys the Port Mapper reads and writes come from
  \<open>normalizeLocation\<close> and contain \<open>|\<close>, so no inherited property of
  \<open>Object.prototype\<close> is ever named by them.
\<close>

definition obj_get :: "(string \<times> jsval) list \<Rightarrow> string \<Rightarrow> jsval" where
  "obj_get obj key = (case map_of obj key of None \<Rightarrow> JUndefined | Some v \<Rightarrow> v)"

definition obj_in :: "string \<Rightarrow> (string \<times> jsval) list \<Rightarrow> bool" where
  "obj_in key obj = (map_of obj key \<noteq> None)"

fun obj_set :: "(string \<times> jsval) list \<Rightarrow> string \<Rightarrow> jsval \<Rightarrow> (string \<times> jsval) list" where
  "obj_set [] key v = [(key, v)]"
| "obj_set ((k, w) # obj) key v = (if k = key then (key, v) # obj else (k, w) # obj_set obj key v)"

definition obj_keys :: "(string \<times> jsval) list \<Rightarrow> string list" where
  "obj_keys obj = map fst obj"

definition startsWith :: "string \<Rightarrow> string \<Rightarrow> bool" where
  "startsWith s p = (take (length p) s = p)"

section \<open>Port Mapper (\<open>lib/mapper.js\<close>)\<close>

record PortMapper =
  mappings :: "(string \<times> jsval) list"

datatype mapper_error =
    CannotNormalize
  | PortNotInteger1to7

definition getPhysicalPort :: "PortMapper \<Rightarrow> string option \<Rightarrow> string option \<Rightarrow> jsval" where
  "getPhysicalPort m location parent =
     (case normalizeLocation location parent of
        None \<Rightarrow> JNull
      | Some key \<Rightarrow> if key = [] then JNull else js_or (obj_get (mappings m) key) JNull)"

text \<open>
  \<open>addMapping\<close> returns the key or throws; the second component is the mapper after the
  call. Both throws happen before the assignment.
\<close>

definition addMapping ::
  "PortMapper \<Rightarrow> string option \<Rightarrow> string option \<Rightarrow> jsval \<Rightarrow> (mapper_error + string) \<times> PortMapper"
where
  "addMapping m location parent physicalPort =
     (case normalizeLocation location parent of
        None \<Rightarrow> (Inl CannotNormalize, m)
      | Some key \<Rightarrow>
          if key = [] then (Inl CannotNormalize, m)
          else if port_out_of_range physicalPort then (Inl PortNotInteger1to7, m)
          else (Inr key, m\<lparr>mappings := obj_set (mappings m) key physicalPort\<rparr>))"

definition hasMapping :: "PortMapper \<Rightarrow> string option \<Rightarrow> string option \<Rightarrow> bool" where
  "hasMapping m location parent =
     (case normalizeLocation location parent of
        None \<Rightarrow> False
      | Some key \<Rightarrow> if key = [] then False else obj_in key (mappings m))"

definition getExistingPort :: "PortMapper \<Rightarrow> string option \<Rightarrow> string option \<Rightarrow> jsval" where
  "getExistingPort m location parent =
     (case normalizeLocation location parent of
        None \<Rightarrow> JNull
      | Some key \<Rightarrow> if key = [] then JNull else js_or (obj_get (mappings m) key) JNull)"

definition isKnownChip :: "PortMapper \<Rightarrow> string option \<Rightarrow> string option \<Rightarrow> bool" where
  "isKnownChip m location parent =
     (case extractChipPrefix parent of
        None \<Rightarrow> False
      | Some chipPrefix \<Rightarrow>
          if chipPrefix = [] then False
          else list_ex (\<lambda>key. startsWith key (chipPrefix @ ''|'')) (obj_keys (mappings m)))"

definition getMappingCount :: "PortMapper \<Rightarrow> nat" where
  "getMappingCount m = length (obj_keys (mappings m))"

definition isCalibrated :: "PortMapper \<Rightarrow> bool" where
  "isCalibrated m = (7 \<le> length (obj_keys (mappings m)))"

section \<open>Calibration Store: \<open>validate\<close> (\<open>lib/store.js\<close>)\<close>

datatype store_error =
    NotAnObject
  | InvalidSchemaVersion jsval
  | MissingMappingsObject
  | InvalidMappingKey string
  | InvalidPortValue string jsval

text \<open>\<open>typeof v === 'object'\<close> holds for \<open>null\<close>, arrays and objects.\<close>

fun typeof_object :: "jsval \<Rightarrow> bool" where
  "typeof_object JNull = True"
| "typeof_object (JArray xs) = True"
| "typeof_object (JObject kvs) = True"
| "typeof_object _ = False"

text \<open>
  Reading \<open>data.version\<close> and \<open>data.mappings\<close> on a value that passed the object check:
  neither name is an index, \<open>length\<close> or a prototype property, so an array yields
  \<open>undefined\<close>.
\<close>

fun get_prop :: "jsval \<Rightarrow> string \<Rightarrow> jsval" where
  "get_prop (JObject kvs) name = obj_get kvs name"
| "get_prop _ name = JUndefined"

text \<open>\<open>Object.entries\<close>: an array lists its indices, written in decimal, as keys.\<close>

fun entries :: "jsval \<Rightarrow> (string \<times> jsval) list" where
  "entries (JObject kvs) = kvs"
| "entries (JArray xs) = zip (map decimal [0..<length xs]) xs"
| "entries _ = []"

text \<open>
  \<open>/^\d+&[A-F0-9]+\|\d+$/i.test(key)\<close>. As for the chip pattern, each greedy run is
  followed by a character outside its class, so the match is deterministic; \<open>$\<close> is the
  end of the string.
\<close>

definition keyPattern_test :: "string \<Rightarrow> bool" where
  "keyPattern_test key =
     (let ds = takeWhile is_digit key; r1 = dropWhile is_digit key
      in ds \<noteq> [] \<and>
         (case r1 of
            [] \<Rightarrow> False
          | a # r2 \<Rightarrow>
              a = CHR ''&'' \<and>
              (let hs = takeWhile is_hex r2; r3 = dropWhile is_hex r2
               in hs \<noteq> [] \<and>
                  (case r3 of
                     [] \<Rightarrow> False
                   | b # r4 \<Rightarrow> b = CHR ''|'' \<and> r4 \<noteq> [] \<and> list_all is_digit r4))))"

text \<open>The \<open>for ... of Object.entries(data.mappings)\<close> loop: the first bad entry throws.\<close>

fun check_entries :: "(string \<times> jsval) list \<Rightarrow> store_error + bool" where
  "check_entries [] = Inr True"
| "check_entries ((key, v) # es) =
     (if \<not> keyPattern_test key then Inl (InvalidMappingKey key)
      else if port_out_of_range v then Inl (InvalidPortValue key v)
      else check_entries es)"

definition SCHEMA_VERSION :: string where
  "SCHEMA_VERSION = ''1.0''"

definition validate :: "jsval \<Rightarrow> store_error + bool" where
  "validate data =
     (if \<not> truthy data \<or> \<not> typeof_object data then Inl NotAnObject
      else if get_prop data ''version'' \<noteq> JString SCHEMA_VERSION
        then Inl (InvalidSchemaVersion (get_prop data ''version''))
      else if \<not> truthy (get_prop data ''mappings'') \<or> \<not> typeof_object (get_prop data ''mappings'')
        then Inl MissingMappingsObject
      else check_entries (entries (get_prop data ''mappings'')))"

section \<open>Basic facts about the model\<close>

subsection \<open>Characters\<close>

lemma toUpperCase_char_digit: "is_digit c \<Longrightarrow> toUpperCase_char c = c"
  unfolding is_digit_def by (simp, elim disjE) (simp_all add: toUpperCase_char_def)

lemma toUpperCase_char_hex_hex: "is_hex c \<Longrightarrow> is_hex (toUpperCase_char c)"
  unfolding is_hex_def by (simp, elim disjE) (simp_all add: toUpperCase_char_def)

lemma toUpperCase_char_not_lower:
  "c \<notin> set ''abcdefghijklmnopqrstuvwxyz'' \<Longrightarrow> toUpperCase_char c = c"
  by (simp add: toUpperCase_char_def)

lemma toUpperCase_char_idem: "toUpperCase_char (toUpperCase_char c) = toUpperCase_char c"
proof (cases "c \<in> set ''abcdefghijklmnopqrstuvwxyz''")
  case True
  then show ?thesis by (simp, elim disjE) (simp_all add: toUpperCase_char_def)
next
  case False
  then show ?thesis by (simp add: toUpperCase_char_not_lower del: set_simps)
qed

lemma is_digit_toUpperCase_char: "is_digit (toUpperCase_char c) = is_digit c"
proof (cases "c \<in> set ''abcdefghijklmnopqrstuvwxyz''")
  case True
  then show ?thesis by (simp, elim disjE) (simp_all add: toUpperCase_char_def is_digit_def)
next
  case False
  then show ?thesis by (simp add: toUpperCase_char_not_lower del: set_simps)
qed

lemma is_hex_toUpperCase_char: "is_hex (toUpperCase_char c) = is_hex c"
proof (cases "c \<in> set ''abcdefghijklmnopqrstuvwxyz''")
  case True
  then show ?thesis by (simp, elim disjE) (simp_all add: toUpperCase_char_def is_hex_def)
next
  case False
  then show ?thesis by (simp add: toUpperCase_char_not_lower del: set_simps)
qed

lemma toUpperCase_char_eq_amp: "toUpperCase_char c = CHR ''&'' \<longleftrightarrow> c = CHR ''&''"
proof (cases "c \<in> set ''abcdefghijklmnopqrstuvwxyz''")
  case True
  then show ?thesis by (simp, elim disjE) (simp_all add: toUpperCase_char_def)
next
  case False
  then show ?thesis by (simp add: toUpperCase_char_not_lower del: set_simps)
qed

lemma toUpperCase_char_eq_backslash: "toUpperCase_char c = backslash \<longleftrightarrow> c = backslash"
proof (cases "c \<in> set ''abcdefghijklmnopqrstuvwxyz''")
  case True
  then show ?thesis by (simp, elim disjE) (simp_all add: toUpperCase_char_def backslash_def)
next
  case False
  then show ?thesis by (simp add: toUpperCase_char_not_lower del: set_simps)
qed

subsection \<open>Results of the extractions are never empty\<close>

lemma isInteger_Fin: "isInteger (JNumber (Fin q)) = (q \<in> \<int>)"
  by (auto simp: Ints_def)

lemma decimal_nonempty: "decimal n \<noteq> []"
  by (subst decimal.simps) simp

lemma number_toString_nonempty: "number_toString v \<noteq> []"
  by (cases v) (auto simp: number_toString_def decimal_nonempty split: prod.splits)

lemma chip_match_at_nonempty: "chip_match_at s = Some g \<Longrightarrow> g \<noteq> []"
  by (auto simp: chip_match_at_def Let_def split: list.splits if_splits)

lemma chip_search_nonempty: "chip_search s = Some g \<Longrightarrow> g \<noteq> []"
  by (induction s) (auto split: option.splits dest: chip_match_at_nonempty)

lemma extractChipPrefix_nonempty: "extractChipPrefix p = Some c \<Longrightarrow> c \<noteq> []"
  by (auto simp: extractChipPrefix_def toUpperCase_def split: option.splits if_splits
      dest: chip_search_nonempty)

lemma extractPortIndex_nonempty: "extractPortIndex l = Some i \<Longrightarrow> i \<noteq> []"
  by (auto simp: extractPortIndex_def number_toString_nonempty split: option.splits if_splits)

lemma normalizeLocation_Some_iff:
  "normalizeLocation l p = Some key \<longleftrightarrow>
     (\<exists>c i. extractChipPrefix p = Some c \<and> extractPortIndex l = Some i \<and> key = c @ ''|'' @ i)"
  by (auto simp: normalizeLocation_def split: option.splits
      dest: extractChipPrefix_nonempty extractPortIndex_nonempty)

lemma normalizeLocation_None_iff:
  "normalizeLocation l p = None \<longleftrightarrow> extractChipPrefix p = None \<or> extractPortIndex l = None"
  by (auto simp: normalizeLocation_def split: option.splits
      dest: extractChipPrefix_nonempty extractPortIndex_nonempty)

lemma normalizeLocation_nonempty: "normalizeLocation l p = Some key \<Longrightarrow> key \<noteq> []"
  by (auto simp: normalizeLocation_Some_iff)

subsection \<open>Port numbers and objects\<close>

lemma port_in_range_iff:
  "\<not> port_out_of_range v \<longleftrightarrow> (\<exists>n::int. 1 \<le> n \<and> n \<le> 7 \<and> v = JNumber (Fin (of_int n)))"
proof (cases v)
  case (JNumber x)
  then show ?thesis
  proof (cases x)
    case (Fin q)
    show ?thesis
    proof
      assume "\<not> port_out_of_range v"
      with JNumber Fin have q: "q \<in> \<int>" "1 \<le> q" "q \<le> 7"
        by (auto simp: isInteger_Fin simp del: isInteger.simps)
      then obtain n :: int where n: "q = of_int n" by (auto elim: Ints_cases)
      with q have "1 \<le> n" "n \<le> 7" by auto
      with n JNumber Fin show "\<exists>n::int. 1 \<le> n \<and> n \<le> 7 \<and> v = JNumber (Fin (of_int n))"
        by auto
    next
      assume "\<exists>n::int. 1 \<le> n \<and> n \<le> 7 \<and> v = JNumber (Fin (of_int n))"
      then show "\<not> port_out_of_range v" by auto
    qed
  qed auto
qed auto

lemma obj_get_obj_set: "obj_get (obj_set obj key v) k = (if k = key then v else obj_get obj k)"
  by (induction obj key v rule: obj_set.induct) (auto simp: obj_get_def)

lemma obj_keys_obj_set:
  "obj_keys (obj_set obj key v) =
     (if key \<in> set (obj_keys obj) then obj_keys obj else obj_keys obj @ [key])"
  by (induction obj key v rule: obj_set.induct) (auto simp: obj_keys_def)

lemma obj_in_iff: "obj_in key obj \<longleftrightarrow> key \<in> set (obj_keys obj)"
  by (auto simp: obj_in_def obj_keys_def map_of_eq_None_iff)

subsection \<open>Rounding to a double\<close>

lemma bitlen_bounds: "0 < v \<Longrightarrow> 2 ^ (bitlen v - 1) \<le> v \<and> v < 2 ^ bitlen v"
proof (induction v rule: bitlen.induct)
  case (1 n)
  show ?case
  proof (cases "n div 2 = 0")
    case True
    with "1.prems" have "n = 1" by (simp add: div_eq_0_iff) 
    then show ?thesis by (simp add: bitlen.simps)
  next
    case False
    with "1.prems" "1.IH" have ih: "2 ^ (bitlen (n div 2) - 1) \<le> n div 2" "n div 2 < 2 ^ bitlen (n div 2)"
      by auto
    from False have pos: "0 < bitlen (n div 2)" by (simp add: bitlen.simps)
    have b: "bitlen n = Suc (bitlen (n div 2))" using "1.prems" by (simp add: bitlen.simps)
    from pos have "(2::nat) ^ bitlen (n div 2) = 2 * 2 ^ (bitlen (n div 2) - 1)"
      by (cases "bitlen (n div 2)") auto
    with ih(1) have "(2::nat) ^ bitlen (n div 2) \<le> n" by linarith
    moreover from ih(2) have "n < 2 * 2 ^ bitlen (n div 2)" by linarith
    ultimately show ?thesis using b by simp
  qed
qed

lemma bitlen_eq:
  assumes "2 ^ (b - 1) \<le> v" and "v < 2 ^ b" and "0 < b"
  shows "bitlen v = b"
proof -
  from assms have v: "0 < v" by (metis less_le_trans zero_less_numeral zero_less_power)
  note bb = bitlen_bounds[OF v]
  have "\<not> bitlen v < b"
  proof
    assume "bitlen v < b"
    then have "(2::nat) ^ bitlen v \<le> 2 ^ (b - 1)" by (intro power_increasing) auto
    with bb assms(1) show False by linarith
  qed
  moreover have "\<not> b < bitlen v"
  proof
    assume "b < bitlen v"
    then have "(2::nat) ^ b \<le> 2 ^ (bitlen v - 1)" by (intro power_increasing) auto
    with bb assms(2) show False by linarith
  qed
  ultimately show ?thesis by linarith
qed

lemma round_double_exact: "v < 2 ^ 53 \<Longrightarrow> round_double v = Finite v"
  by (simp add: round_double_def)

lemma round_double_54:
  assumes "2 ^ 53 \<le> v" and "v < 2 ^ 54"
  shows "round_double v = Finite (2 * (if odd v \<and> odd (v div 2) then v div 2 + 1 else v div 2))"
proof -
  have b: "bitlen v = 54" using assms by (intro bitlen_eq) auto
  have r: "v mod 2 = 1 \<longleftrightarrow> odd v" by presburger
  have "v mod 2 \<le> 1" by presburger
  moreover have "v div 2 < 2 ^ 53" using assms(2) by simp
  then have "2 * (v div 2 + 1) < 2 ^ 1024" "2 * (v div 2) < 2 ^ 1024" by simp_all
  ultimately show ?thesis using assms(1) b r
    by (auto simp: round_double_def Let_def odd_iff_mod_2_eq_one)
qed

lemma round_double_form:
  assumes "2 ^ 53 \<le> v"
  shows "\<exists>y. 2 ^ 53 \<le> y \<and> y \<le> 2 * v \<and>
           round_double v = (if 2 ^ 1024 \<le> y then Infinity else Finite y)"
proof -
  define e where "e = bitlen v - 53"
  define q where "q = v div 2 ^ e"
  define q' where
    "q' = (if 2 ^ (e - 1) < v mod 2 ^ e \<or> (v mod 2 ^ e = 2 ^ (e - 1) \<and> odd q) then q + 1 else q)"
  from assms have vpos: "0 < v" by (metis less_le_trans zero_less_numeral zero_less_power)
  note bb = bitlen_bounds[OF vpos]
  have "\<not> bitlen v \<le> 53"
  proof
    assume "bitlen v \<le> 53"
    then have "(2::nat) ^ bitlen v \<le> 2 ^ 53" by (intro power_increasing) auto
    with bb assms show False by linarith
  qed
  then have e: "bitlen v - 1 = 52 + e" "1 \<le> e" by (simp_all add: e_def)
  have form: "round_double v = (if 2 ^ 1024 \<le> q' * 2 ^ e then Infinity else Finite (q' * 2 ^ e))"
    unfolding round_double_def Let_def q'_def q_def e_def using assms by simp
  have "(2::nat) ^ 52 * 2 ^ e \<le> v" using bb e(1) by (simp add: power_add)
  then have "(2::nat) ^ 52 \<le> q" unfolding q_def
    by (simp add: less_eq_div_iff_mult_less_eq)
  moreover have qq: "q \<le> q'" "q' \<le> q + 1" by (simp_all add: q'_def)
  ultimately have q52: "(2::nat) ^ 52 \<le> q'" by linarith
  have "(2::nat) ^ 1 \<le> 2 ^ e" using e(2) by (intro power_increasing) auto
  then have e2: "(2::nat) \<le> 2 ^ e" by simp
  have "(2::nat) ^ 52 * 2 \<le> q' * 2 ^ e" using q52 e2 by (rule mult_mono) simp_all
  then have lo: "2 ^ 53 \<le> q' * 2 ^ e" by simp
  have "q * 2 ^ e \<le> v" unfolding q_def by simp
  moreover have "(2::nat) ^ e \<le> 2 ^ (bitlen v - 1)" using e(1) by (intro power_increasing) auto
  with bb have "2 ^ e \<le> v" by linarith
  moreover have "q' * 2 ^ e \<le> (q + 1) * 2 ^ e" using qq(2) by (intro mult_right_mono) auto
  ultimately have "q' * 2 ^ e \<le> 2 * v" by (simp add: algebra_simps)
  with lo form show ?thesis by blast
qed

lemma round_double_big:
  assumes "2 ^ 53 \<le> v" and "round_double v = Finite x"
  shows "2 ^ 53 \<le> x \<and> x \<le> 2 * v"
proof -
  from round_double_form[OF assms(1)] obtain y where
    y: "2 ^ 53 \<le> y" "y \<le> 2 * v" "round_double v = (if 2 ^ 1024 \<le> y then Infinity else Finite y)"
    by blast
  with assms(2) have "x = y" by (simp split: if_splits)
  with y show ?thesis by simp
qed

lemma round_double_finite:
  assumes "v < 2 ^ 1023"
  shows "\<exists>x. round_double v = Finite x \<and> x \<le> 2 * v"
proof (cases "v < 2 ^ 53")
  case True
  then show ?thesis by (simp add: round_double_def)
next
  case False
  then have "2 ^ 53 \<le> v" by simp
  from round_double_form[OF this] obtain y where
    y: "y \<le> 2 * v" "round_double v = (if 2 ^ 1024 \<le> y then Infinity else Finite y)"
    by blast
  from y(1) assms have "y < 2 ^ 1024" by simp
  with y show ?thesis by simp
qed

lemma round_double_exact_inv:
  assumes "round_double w = Finite x" and "x < 2 ^ 53"
  shows "w = x"
proof (cases "w < 2 ^ 53")
  case True
  with assms(1) show ?thesis by (simp add: round_double_exact)
next
  case False
  then have "2 ^ 53 \<le> w" by simp
  from round_double_big[OF this assms(1)] assms(2) show ?thesis by simp
qed

subsection \<open>Decimal digits\<close>

lemma digit_char_val: "is_digit c \<Longrightarrow> digit_char (digit_val c) = c"
  unfolding is_digit_def by (simp, elim disjE) (simp_all add: digit_char_def digit_val_def)

lemma digit_val_less: "is_digit c \<Longrightarrow> digit_val c < 10"
  unfolding is_digit_def by (simp, elim disjE) (simp_all add: digit_val_def)

lemma digit_val_0_iff: "is_digit c \<Longrightarrow> digit_val c = 0 \<longleftrightarrow> c = CHR ''0''"
  unfolding is_digit_def by (simp, elim disjE) (simp_all add: digit_val_def)

lemma is_digit_digit_char: "d < 10 \<Longrightarrow> is_digit (digit_char d)"
proof -
  assume "d < 10"
  then have "d \<in> {0, 1, 2, 3, 4, 5, 6, 7, 8, 9}" by auto
  then show ?thesis by (elim insertE) (simp_all add: digit_char_def is_digit_def)
qed

lemma decimal_small: "n < 10 \<Longrightarrow> decimal n = [digit_char n]"
  by (subst decimal.simps) simp

lemma decimal_step: "10 \<le> n \<Longrightarrow> decimal n = decimal (n div 10) @ [digit_char (n mod 10)]"
  by (subst decimal.simps) simp

lemma decimal_digits: "list_all is_digit (decimal n)"
proof (induction n rule: decimal.induct)
  case (1 n)
  show ?case
  proof (cases "n < 10")
    case True
    then show ?thesis by (simp add: decimal_small is_digit_digit_char)
  next
    case False
    with 1 show ?thesis by (simp add: decimal_step is_digit_digit_char)
  qed
qed

lemma length_decimal_le: "0 < m \<Longrightarrow> n < 10 ^ m \<Longrightarrow> length (decimal n) \<le> m"
proof (induction n arbitrary: m rule: decimal.induct)
  case (1 n)
  show ?case
  proof (cases "n < 10")
    case True
    with "1.prems" show ?thesis by (simp add: decimal_small)
  next
    case False
    from "1.prems" obtain m' where m: "m = Suc m'" by (cases m) auto
    from False "1.prems" m have "0 < m'" by (cases m') auto
    moreover from "1.prems" m have "n div 10 < 10 ^ m'"
      by (simp add: less_mult_imp_div_less mult.commute)
    ultimately have "length (decimal (n div 10)) \<le> m'" using False "1.IH" by simp
    with False m show ?thesis by (simp add: decimal_step)
  qed
qed

lemma decimal_times_10: "0 < s \<Longrightarrow> decimal (s * 10) = decimal s @ ''0''"
  by (subst decimal.simps) (simp add: digit_char_def)

lemma decimal_times_power: "0 < s \<Longrightarrow> decimal (s * 10 ^ m) = decimal s @ replicate m (CHR ''0'')"
proof (induction m)
  case 0
  then show ?case by simp
next
  case (Suc m)
  then have "decimal (s * 10 ^ m * 10) = decimal (s * 10 ^ m) @ ''0''"
    by (intro decimal_times_10) simp
  moreover have "s * 10 ^ Suc m = s * 10 ^ m * 10" by simp
  ultimately have "decimal (s * 10 ^ Suc m) = decimal (s * 10 ^ m) @ ''0''" by (simp only:)
  with Suc show ?case by (simp add: replicate_append_same)
qed

lemma digits_val_snoc: "digits_val (ds @ [c]) = 10 * digits_val ds + digit_val c"
  by (simp add: digits_val_def)

lemma digits_val_0_iff:
  "list_all is_digit ds \<Longrightarrow> digits_val ds = 0 \<longleftrightarrow> dropWhile (\<lambda>c. c = CHR ''0'') ds = []"
proof (induction ds rule: rev_induct)
  case Nil
  then show ?case by (simp add: digits_val_def)
next
  case (snoc c ds)
  then have c: "is_digit c" and ds: "list_all is_digit ds" by simp_all
  show ?case
    using snoc.IH[OF ds] digit_val_0_iff[OF c]
    by (auto simp: digits_val_snoc dropWhile_append)
qed

lemma decimal_digits_val:
  "ds \<noteq> [] \<Longrightarrow> list_all is_digit ds \<Longrightarrow> decimal (digits_val ds) = strip_leading_zeros ds"
proof (induction ds rule: rev_induct)
  case Nil
  then show ?case by simp
next
  case (snoc c ds)
  then have c: "is_digit c" and ds: "list_all is_digit ds" by simp_all
  note z = digits_val_0_iff[OF ds]
  show ?case
  proof (cases "digits_val ds = 0")
    case True
    with z have dz: "dropWhile (\<lambda>c. c = CHR ''0'') ds = []" by simp
    then have all0: "\<forall>x \<in> set ds. x = CHR ''0''" by simp
    from True have "decimal (digits_val (ds @ [c])) = [c]"
      by (simp add: digits_val_snoc decimal_small digit_val_less[OF c] digit_char_val[OF c])
    moreover have "strip_leading_zeros (ds @ [c]) = [c]"
      using all0 by (simp add: strip_leading_zeros_def dropWhile_append)
    ultimately show ?thesis by simp
  next
    case False
    with z have nz: "dropWhile (\<lambda>c. c = CHR ''0'') ds \<noteq> []" by simp
    then have dsne: "ds \<noteq> []" by auto
    from nz have ex: "\<exists>x \<in> set ds. x \<noteq> CHR ''0''" by auto
    have "10 \<le> 10 * digits_val ds + digit_val c" using False by simp
    moreover have "(10 * digits_val ds + digit_val c) div 10 = digits_val ds"
      using digit_val_less[OF c] by simp
    moreover have "(10 * digits_val ds + digit_val c) mod 10 = digit_val c"
      using digit_val_less[OF c] by simp
    ultimately have "decimal (digits_val (ds @ [c])) = decimal (digits_val ds) @ [c]"
      by (simp add: digits_val_snoc decimal_step digit_char_val[OF c])
    also have "\<dots> = strip_leading_zeros ds @ [c]"
      using snoc.IH[OF dsne ds] by simp
    also have "\<dots> = strip_leading_zeros (ds @ [c])"
      using nz ex by (auto simp: strip_leading_zeros_def dropWhile_append)
    finally show ?thesis .
  qed
qed

subsection \<open>The shortest digits that round back\<close>

lemma closest_in: "closest x k cs = Some c \<Longrightarrow> c \<in> set cs"
proof (induction cs arbitrary: c)
  case Nil
  then show ?case by simp
next
  case (Cons a cs)
  show ?case
  proof (cases "closest x k cs")
    case None
    with Cons.prems show ?thesis by simp
  next
    case (Some b)
    with Cons.prems have "c = closer x k a b" by simp
    then have "c = a \<or> c = b" by (simp add: closer_def Let_def)
    with Cons.IH[OF Some] show ?thesis by auto
  qed
qed

lemma candidates_props:
  assumes "(n, s) \<in> set (candidates x k)"
  shows "k \<le> n" and "10 ^ (k - 1) \<le> s" and "s < 10 ^ k"
    and "round_double (s * 10 ^ (n - k)) = Finite x"
    and "n = length (decimal x) \<or> n = length (decimal x) + 1"
    and "s \<le> x div 10 ^ (n - k) + 1"
  using assms by (auto simp: candidates_def split: if_splits)

lemma shortest_from_cases:
  "shortest_from x k = (n, k', s) \<Longrightarrow>
     (n = length (decimal x) \<and> k' = n \<and> s = x) \<or> (n, s) \<in> set (candidates x k')"
proof (induction x k rule: shortest_from.induct)
  case (1 x k)
  show ?case
  proof (cases "length (decimal x) < k")
    case True
    with "1.prems" show ?thesis by (auto simp: shortest_from.simps)
  next
    case False
    show ?thesis
    proof (cases "closest x k (candidates x k)")
      case None
      with False "1.prems" have "shortest_from x (Suc k) = (n, k', s)"
        by (simp add: shortest_from.simps)
      with "1.IH"[OF False None] show ?thesis by simp
    next
      case (Some c)
      obtain n0 s0 where c: "c = (n0, s0)" by (cases c)
      with False Some "1.prems" have "n = n0" "k' = k" "s = s0"
        by (simp_all add: shortest_from.simps)
      with closest_in[OF Some] c show ?thesis by simp
    qed
  qed
qed

lemma shortest_from_exact:
  assumes "0 < x" and "x < 2 ^ 53" and "shortest_from x k = (n, k', s)"
  shows "s * 10 ^ (n - k') = x \<and> n \<le> 21 \<and> 0 < s"
proof -
  have "x < 10 ^ 16" using assms(2) by simp
  then have d: "length (decimal x) \<le> 16" by (intro length_decimal_le) auto
  from shortest_from_cases[OF assms(3)] show ?thesis
  proof
    assume "n = length (decimal x) \<and> k' = n \<and> s = x"
    with d assms(1) show ?thesis by simp
  next
    assume c: "(n, s) \<in> set (candidates x k')"
    from candidates_props(4)[OF c] assms(2) have e: "s * 10 ^ (n - k') = x"
      by (rule round_double_exact_inv)
    with assms(1) have "0 < s" by (cases s) auto
    with e candidates_props(5)[OF c] d show ?thesis by auto
  qed
qed

lemma number_toString_exact: "x < 2 ^ 53 \<Longrightarrow> number_toString (Finite x) = decimal x"
proof (cases "x = 0")
  case True
  then show ?thesis by (simp add: number_toString_def decimal_small digit_char_def)
next
  case False
  assume x: "x < 2 ^ 53"
  obtain n k s where sh: "shortest_from x 1 = (n, k, s)" by (cases "shortest_from x 1")
  from False have "0 < x" by simp
  from shortest_from_exact[OF this x sh] have p: "s * 10 ^ (n - k) = x" "n \<le> 21" "0 < s"
    by simp_all
  from p(3) have "decimal (s * 10 ^ (n - k)) = decimal s @ replicate (n - k) (CHR ''0'')"
    by (rule decimal_times_power)
  with p False sh show ?thesis by (simp add: number_toString_def)
qed

lemma round_double_1e21: "round_double (10 ^ 21) = Finite (10 ^ 21)"
  by (simp add: round_double_def bitlen.simps Let_def)

lemma shortest_from_n_le_21:
  assumes "x < 10 ^ 21" and "shortest_from x k = (n, k', s)"
  shows "n \<le> 21"
proof -
  have d: "length (decimal x) \<le> 21" using assms(1) by (intro length_decimal_le) auto
  from shortest_from_cases[OF assms(2)] show ?thesis
  proof
    assume "n = length (decimal x) \<and> k' = n \<and> s = x"
    with d show ?thesis by simp
  next
    assume c: "(n, s) \<in> set (candidates x k')"
    note p = candidates_props[OF c]
    show ?thesis
    proof (rule ccontr)
      assume "\<not> n \<le> 21"
      with p(5) d have n: "n = 22" by auto
      from p(2,3) have k1: "1 \<le> k'" by (cases k') auto
      with p(1) n have split: "(10::nat) ^ 21 = 10 ^ (k' - 1) * 10 ^ (n - k')"
        by (simp add: power_add[symmetric])
      have "x div 10 ^ (n - k') < 10 ^ (k' - 1)"
        using assms(1) split by (simp add: div_less_iff_less_mult)
      with p(6) have "s \<le> 10 ^ (k' - 1)" by simp
      with p(2) have "s = 10 ^ (k' - 1)" by simp
      with split have "s * 10 ^ (n - k') = 10 ^ 21" by simp
      with p(4) round_double_1e21 have "x = 10 ^ 21" by simp
      with assms(1) show False by simp
    qed
  qed
qed

lemma number_toString_digits:
  assumes "x < 10 ^ 21"
  shows "list_all is_digit (number_toString (Finite x))"
proof (cases "x = 0")
  case True
  then show ?thesis by (simp add: number_toString_def is_digit_def)
next
  case False
  obtain n k s where sh: "shortest_from x 1 = (n, k, s)" by (cases "shortest_from x 1")
  from shortest_from_n_le_21[OF assms sh] have "n \<le> 21" .
  moreover have "is_digit (CHR ''0'')" by (simp add: is_digit_def)
  ultimately show ?thesis
    using False sh decimal_digits[of s] by (auto simp: number_toString_def list_all_iff)
qed

lemma length_decimal_gt: "10 ^ m \<le> n \<Longrightarrow> m < length (decimal n)"
proof (induction m arbitrary: n)
  case 0
  then show ?case using decimal_nonempty[of n] by (cases "decimal n") auto
next
  case (Suc m)
  then have n10: "10 \<le> n"
    by (metis One_nat_def le_trans numeral_le_one_iff one_le_numeral one_le_power power_Suc
        mult.right_neutral mult_le_mono2 semiring_norm(69))
  from Suc.prems have "10 ^ m \<le> n div 10"
    by (simp add: less_eq_div_iff_mult_less_eq mult.commute)
  from Suc.IH[OF this] n10 show ?case by (simp add: decimal_step)
qed

lemma shortest_from_n_ge:
  assumes "shortest_from x k = (n, k', s)"
  shows "length (decimal x) \<le> n"
  using shortest_from_cases[OF assms] candidates_props(5)[of n s x k'] by auto

lemma number_toString_not_digits:
  assumes "10 ^ 21 \<le> x"
  shows "\<not> list_all is_digit (number_toString (Finite x))"
proof -
  from assms have x0: "x \<noteq> 0" by auto
  obtain n k s where sh: "shortest_from x 1 = (n, k, s)" by (cases "shortest_from x 1")
  from length_decimal_gt[OF assms] shortest_from_n_ge[OF sh] have n: "\<not> n \<le> 21" by simp
  have e: "\<not> is_digit (CHR ''e'')" "\<not> is_digit (CHR ''.'')" by (simp_all add: is_digit_def)
  show ?thesis
  proof (cases "k = 1")
    case True
    with x0 sh n have "number_toString (Finite x) = decimal s @ ''e+'' @ decimal (n - 1)"
      by (simp add: number_toString_def)
    with e show ?thesis by simp
  next
    case False
    with x0 sh n have "number_toString (Finite x) =
        hd (decimal s) # ''.'' @ tl (decimal s) @ ''e+'' @ decimal (n - 1)"
      by (simp add: number_toString_def)
    with e show ?thesis by simp
  qed
qed

lemma number_toString_digits_iff:
  "list_all is_digit (number_toString v) \<longleftrightarrow> (\<exists>x. v = Finite x \<and> x < 10 ^ 21)"
proof (cases v)
  case Infinity
  then show ?thesis by (simp add: number_toString_def is_digit_def)
next
  case (Finite x)
  show ?thesis
  proof (cases "x < 10 ^ 21")
    case True
    with Finite number_toString_digits[OF True] show ?thesis by simp
  next
    case False
    then have "10 ^ 21 \<le> x" by simp
    from number_toString_not_digits[OF this] Finite False show ?thesis by simp
  qed
qed

lemma parseInt10_small:
  assumes "digits_val ds < 10 ^ 20"
  shows "\<exists>x. parseInt10 ds = Finite x \<and> x < 10 ^ 21"
proof -
  have "(10::nat) ^ 20 < 2 ^ 1023" by simp
  with assms have "digits_val ds < 2 ^ 1023" by (rule less_trans)
  from round_double_finite[OF this] obtain x where
    x: "round_double (digits_val ds) = Finite x" "x \<le> 2 * digits_val ds" by blast
  from x(2) assms have "x < 10 ^ 21" by simp
  with x(1) show ?thesis by (simp add: parseInt10_def)
qed

lemma takeWhile_run:
  assumes "list_all P xs" and "rest = [] \<or> \<not> P (hd rest)"
  shows "takeWhile P (xs @ rest) = xs" and "dropWhile P (xs @ rest) = rest"
proof -
  from assms(2) have t: "takeWhile P rest = []" and d: "dropWhile P rest = rest"
    by (cases rest; simp)+
  from assms(1) show "takeWhile P (xs @ rest) = xs"
    by (simp add: takeWhile_append2 list_all_iff t)
  from assms(1) show "dropWhile P (xs @ rest) = rest"
    by (simp add: dropWhile_append2 list_all_iff d)
qed

lemma keyPattern_test_shape:
  assumes "ds \<noteq> []" and "list_all is_digit ds" and "hs \<noteq> []" and "list_all is_hex hs"
  shows "keyPattern_test (ds @ ''&'' @ hs @ ''|'' @ i) \<longleftrightarrow> i \<noteq> [] \<and> list_all is_digit i"
proof -
  have a: "\<not> is_digit (CHR ''&'')" and b: "\<not> is_hex (CHR ''|'')"
    by (simp_all add: is_digit_def is_hex_def)
  have 1: "takeWhile is_digit (ds @ ''&'' @ hs @ ''|'' @ i) = ds"
    "dropWhile is_digit (ds @ ''&'' @ hs @ ''|'' @ i) = ''&'' @ hs @ ''|'' @ i"
    using takeWhile_run[OF assms(2), of "''&'' @ hs @ ''|'' @ i"] a by simp_all
  have 2: "takeWhile is_hex (hs @ ''|'' @ i) = hs" "dropWhile is_hex (hs @ ''|'' @ i) = ''|'' @ i"
    using takeWhile_run[OF assms(4), of "''|'' @ i"] b by simp_all
  show ?thesis
    unfolding keyPattern_test_def 1 Let_def using assms(1,3) 2 by simp
qed

subsection \<open>The observation of the end-to-end scenario\<close>

lemmas chip_eval = extractChipPrefix_def chip_match_at_def backslash_def is_digit_def is_hex_def
  toUpperCase_def toUpperCase_char_def

lemmas port_eval = extractPortIndex_def port_match_at_def ci_eq_def toUpperCase_char_def
  is_digit_def parseInt10_def digits_val_def digit_val_def round_double_def number_toString_def
  shortest_from.simps candidates_def closer_def dist_def decimal.simps digit_char_def

lemma example_chip:
  "extractChipPrefix
     (Some (''USB'' @ CHR 0x5C # ''VID_2109&PID_0822'' @ CHR 0x5C # ''9&238498F1&0&3''))
   = Some ''9&238498F1''"
  by (simp add: chip_eval)

lemma example_port: "extractPortIndex (Some ''Port_#0002.Hub_#0008'') = Some ''2''"
  by (simp add: port_eval)

lemma example_key:
  "normalizeLocation (Some ''Port_#0002.Hub_#0008'')
     (Some (''USB'' @ CHR 0x5C # ''VID_2109&PID_0822'' @ CHR 0x5C # ''9&238498F1&0&3''))
   = Some ''9&238498F1|2''"
  using example_chip example_port by (simp add: normalizeLocation_def)

subsection \<open>Keys that start with a chip prefix\<close>

lemma startsWith_iff: "startsWith s p \<longleftrightarrow> (\<exists>r. s = p @ r)"
  unfolding startsWith_def
  by (metis append_eq_conv_conj append_take_drop_id)

lemma startsWith_bar:
  assumes "CHR ''|'' \<notin> set c"
  shows "startsWith key (c @ ''|'') \<longleftrightarrow>
           CHR ''|'' \<in> set key \<and> takeWhile (\<lambda>x. x \<noteq> CHR ''|'') key = c"
proof
  assume "startsWith key (c @ ''|'')"
  then obtain r where "key = c @ CHR ''|'' # r" by (auto simp: startsWith_iff)
  with assms show "CHR ''|'' \<in> set key \<and> takeWhile (\<lambda>x. x \<noteq> CHR ''|'') key = c"
    by (auto simp: takeWhile_tail)
next
  assume a: "CHR ''|'' \<in> set key \<and> takeWhile (\<lambda>x. x \<noteq> CHR ''|'') key = c"
  then have ne: "dropWhile (\<lambda>x. x \<noteq> CHR ''|'') key \<noteq> []" by auto
  then obtain x r where xr: "dropWhile (\<lambda>x. x \<noteq> CHR ''|'') key = x # r"
    by (cases "dropWhile (\<lambda>x. x \<noteq> CHR ''|'') key") auto
  from hd_dropWhile[OF ne] xr have "x = CHR ''|''" by simp
  with xr have dr: "dropWhile (\<lambda>x. x \<noteq> CHR ''|'') key = CHR ''|'' # r" by simp
  have "key = takeWhile (\<lambda>x. x \<noteq> CHR ''|'') key @ dropWhile (\<lambda>x. x \<noteq> CHR ''|'') key"
    by simp
  with a dr have "key = c @ CHR ''|'' # r" by simp
  then show "startsWith key (c @ ''|'')" by (auto simp: startsWith_iff)
qed

subsection \<open>The shape of an extracted chip prefix\<close>

lemma chip_match_at_shape:
  assumes "chip_match_at s = Some g"
  shows "\<exists>ds hs r. s = backslash # ds @ ''&'' @ hs @ ''&'' @ r \<and> g = ds @ ''&'' @ hs \<and>
           ds \<noteq> [] \<and> hs \<noteq> [] \<and> list_all is_digit ds \<and> list_all is_hex hs"
proof -
  from assms obtain r where s: "s = backslash # r"
    by (auto simp: chip_match_at_def split: list.splits if_splits)
  define ds where "ds = takeWhile is_digit r"
  define r1 where "r1 = dropWhile is_digit r"
  from assms s have ds: "ds \<noteq> []"
    by (auto simp: chip_match_at_def Let_def ds_def split: list.splits if_splits)
  from assms s obtain r2 where r1: "r1 = CHR ''&'' # r2"
    by (auto simp: chip_match_at_def Let_def r1_def split: list.splits if_splits)
  define hs where "hs = takeWhile is_hex r2"
  define r3 where "r3 = dropWhile is_hex r2"
  from assms s r1 have hs: "hs \<noteq> []"
    by (auto simp: chip_match_at_def Let_def r1_def hs_def split: list.splits if_splits)
  from assms s r1 obtain r4 where r3: "r3 = CHR ''&'' # r4"
    by (auto simp: chip_match_at_def Let_def r1_def r3_def split: list.splits if_splits)
  from assms s r1 have g: "g = ds @ ''&'' @ hs"
    by (auto simp: chip_match_at_def Let_def r1_def ds_def hs_def split: list.splits if_splits)
  have "r = ds @ r1" by (simp add: ds_def r1_def)
  moreover have "r2 = hs @ r3" by (simp add: hs_def r3_def)
  ultimately have "s = backslash # ds @ ''&'' @ hs @ ''&'' @ r4"
    using s r1 r3 by simp
  moreover have "list_all is_digit ds"
    unfolding ds_def list_all_iff by (auto dest: set_takeWhileD)
  moreover have "list_all is_hex hs"
    unfolding hs_def list_all_iff by (auto dest: set_takeWhileD)
  ultimately show ?thesis using g ds hs by blast
qed

lemma chip_search_shape:
  "chip_search s = Some g \<Longrightarrow>
     \<exists>ds hs. g = ds @ ''&'' @ hs \<and> ds \<noteq> [] \<and> hs \<noteq> [] \<and> list_all is_digit ds \<and>
       list_all is_hex hs"
proof (induction s)
  case Nil
  then show ?case by simp
next
  case (Cons c cs)
  show ?case
  proof (cases "chip_match_at (c # cs)")
    case None
    with Cons show ?thesis by simp
  next
    case (Some g')
    with Cons.prems have "g' = g" by simp
    with Some chip_match_at_shape[of "c # cs" g] show ?thesis by blast
  qed
qed

lemma toUpperCase_digits: "list_all is_digit ds \<Longrightarrow> toUpperCase ds = ds"
  by (induction ds) (auto simp: toUpperCase_def toUpperCase_char_digit)

lemma toUpperCase_hex: "list_all is_hex hs \<Longrightarrow> list_all is_hex (toUpperCase hs)"
  by (induction hs) (auto simp: toUpperCase_def toUpperCase_char_hex_hex)

lemma toUpperCase_idem: "toUpperCase (toUpperCase s) = toUpperCase s"
  by (simp add: toUpperCase_def toUpperCase_char_idem)

lemma toUpperCase_append: "toUpperCase (a @ b) = toUpperCase a @ toUpperCase b"
  by (simp add: toUpperCase_def)

lemma toUpperCase_amp: "toUpperCase ''&'' = ''&''"
  by (simp add: toUpperCase_def toUpperCase_char_def)

lemma extractChipPrefix_shape:
  assumes "extractChipPrefix p = Some c"
  shows "\<exists>ds hs. c = ds @ ''&'' @ hs \<and> ds \<noteq> [] \<and> hs \<noteq> [] \<and> list_all is_digit ds \<and>
           list_all is_hex hs \<and> toUpperCase hs = hs"
proof -
  from assms obtain q g where g: "chip_search q = Some g" "c = toUpperCase g"
    by (auto simp: extractChipPrefix_def split: option.splits if_splits)
  from chip_search_shape[OF g(1)] obtain ds hs where
    sh: "g = ds @ ''&'' @ hs" "ds \<noteq> []" "hs \<noteq> []" "list_all is_digit ds" "list_all is_hex hs"
    by blast
  have "c = ds @ ''&'' @ toUpperCase hs"
    using g(2) sh(1) toUpperCase_digits[OF sh(4)]
    by (simp only: toUpperCase_append toUpperCase_amp)
  moreover have "toUpperCase hs \<noteq> []" using sh(3) by (simp add: toUpperCase_def)
  ultimately show ?thesis
    using sh(2,4) toUpperCase_hex[OF sh(5)] toUpperCase_idem[of hs] by blast
qed

lemma extractChipPrefix_no_bar:
  assumes "extractChipPrefix p = Some c"
  shows "CHR ''|'' \<notin> set c"
proof -
  from extractChipPrefix_shape[OF assms] obtain ds hs where
    c: "c = ds @ ''&'' @ hs" and d: "list_all is_digit ds" and h: "list_all is_hex hs" by blast
  have "\<not> is_digit (CHR ''|'')" "\<not> is_hex (CHR ''|'')"
    by (simp_all add: is_digit_def is_hex_def)
  with d h have "CHR ''|'' \<notin> set ds" "CHR ''|'' \<notin> set hs"
    by (auto simp: list_all_iff)
  with c show ?thesis by simp
qed

subsection \<open>Lookups in a mapping of valid port numbers\<close>

lemma obj_get_in_range:
  assumes "\<forall>v \<in> snd ` set obj. \<not> port_out_of_range v" and "obj_in key obj"
  shows "truthy (obj_get obj key) \<and> obj_get obj key \<noteq> JNull"
proof -
  from assms(2) obtain v where v: "map_of obj key = Some v" by (auto simp: obj_in_def)
  then have "(key, v) \<in> set obj" by (rule map_of_SomeD)
  then have "v \<in> snd ` set obj" by force
  with assms(1) have "\<not> port_out_of_range v" by blast
  then obtain n :: int where "1 \<le> n" "v = JNumber (Fin (of_int n))"
    using port_in_range_iff[of v] by blast
  with v show ?thesis by (simp add: obj_get_def)
qed

lemma obj_get_absent: "\<not> obj_in key obj \<Longrightarrow> obj_get obj key = JUndefined"
  by (simp add: obj_in_def obj_get_def)

subsection \<open>Upper-casing commutes with the chip pattern\<close>

lemma takeWhile_digit_upper:
  "takeWhile is_digit (toUpperCase r) = toUpperCase (takeWhile is_digit r)"
  by (simp add: toUpperCase_def takeWhile_map comp_def is_digit_toUpperCase_char)

lemma dropWhile_digit_upper:
  "dropWhile is_digit (toUpperCase r) = toUpperCase (dropWhile is_digit r)"
  by (simp add: toUpperCase_def dropWhile_map comp_def is_digit_toUpperCase_char)

lemma takeWhile_hex_upper:
  "takeWhile is_hex (toUpperCase r) = toUpperCase (takeWhile is_hex r)"
  by (simp add: toUpperCase_def takeWhile_map comp_def is_hex_toUpperCase_char)

lemma dropWhile_hex_upper:
  "dropWhile is_hex (toUpperCase r) = toUpperCase (dropWhile is_hex r)"
  by (simp add: toUpperCase_def dropWhile_map comp_def is_hex_toUpperCase_char)

lemma toUpperCase_Nil_iff: "toUpperCase s = [] \<longleftrightarrow> s = []"
  by (simp add: toUpperCase_def)

lemma toUpperCase_char_amp: "toUpperCase_char (CHR ''&'') = CHR ''&''"
  by (simp add: toUpperCase_char_def)

lemma toUpperCase_Nil: "toUpperCase [] = []"
  by (simp add: toUpperCase_def)

lemma toUpperCase_Cons: "toUpperCase (c # s) = toUpperCase_char c # toUpperCase s"
  by (simp add: toUpperCase_def)

lemma chip_match_at_upper:
  "chip_match_at (toUpperCase s) = map_option toUpperCase (chip_match_at s)"
proof (cases s)
  case Nil
  then show ?thesis by (simp add: chip_match_at_def toUpperCase_def)
next
  case (Cons c r)
  show ?thesis
  proof (cases "dropWhile is_digit r")
    case Nil
    with Cons show ?thesis
      by (simp add: chip_match_at_def toUpperCase_Nil toUpperCase_Cons toUpperCase_char_eq_backslash
          takeWhile_digit_upper dropWhile_digit_upper toUpperCase_Nil_iff Let_def
          del: dropWhile_eq_Nil_conv)
  next
    case r1: (Cons a r2)
    show ?thesis
    proof (cases "dropWhile is_hex r2")
      case Nil
      with Cons r1 show ?thesis
        by (simp add: chip_match_at_def toUpperCase_Nil toUpperCase_Cons toUpperCase_char_eq_backslash
            toUpperCase_char_eq_amp takeWhile_digit_upper dropWhile_digit_upper
            takeWhile_hex_upper dropWhile_hex_upper toUpperCase_Nil_iff Let_def
            del: dropWhile_eq_Nil_conv)
    next
      case r3: (Cons b r4)
      with Cons r1 show ?thesis
        by (simp add: chip_match_at_def toUpperCase_Nil toUpperCase_Cons toUpperCase_char_eq_backslash
            toUpperCase_char_eq_amp takeWhile_digit_upper dropWhile_digit_upper
            takeWhile_hex_upper dropWhile_hex_upper toUpperCase_Nil_iff Let_def
            toUpperCase_append toUpperCase_amp toUpperCase_char_amp
            del: dropWhile_eq_Nil_conv)
    qed
  qed
qed

lemma chip_search_upper:
  "chip_search (toUpperCase s) = map_option toUpperCase (chip_search s)"
proof (induction s)
  case Nil
  then show ?case by (simp add: toUpperCase_def)
next
  case (Cons c cs)
  have "chip_search (toUpperCase (c # cs)) =
          (case chip_match_at (toUpperCase (c # cs)) of
             Some g \<Rightarrow> Some g
           | None \<Rightarrow> chip_search (toUpperCase cs))"
    by (simp add: toUpperCase_Cons)
  with Cons chip_match_at_upper[of "c # cs"] show ?case
    by (simp split: option.splits)
qed

lemma extractChipPrefix_upper:
  "extractChipPrefix (Some (toUpperCase p)) = extractChipPrefix (Some p)"
  by (simp add: extractChipPrefix_def chip_search_upper toUpperCase_Nil_iff toUpperCase_idem
      split: option.splits)

lemma chip_search_needs_backslash: "chip_search s = Some g \<Longrightarrow> backslash \<in> set s"
proof (induction s)
  case Nil
  then show ?case by simp
next
  case (Cons c cs)
  show ?case
  proof (cases "chip_match_at (c # cs)")
    case None
    with Cons show ?thesis by simp
  next
    case (Some g')
    then have "c = backslash"
      by (auto simp: chip_match_at_def split: if_splits)
    then show ?thesis by simp
  qed
qed

lemma extractChipPrefix_no_backslash:
  assumes "extractChipPrefix p = Some c"
  shows "backslash \<notin> set c"
proof -
  from extractChipPrefix_shape[OF assms] obtain ds hs where
    c: "c = ds @ ''&'' @ hs" and d: "list_all is_digit ds" and h: "list_all is_hex hs" by blast
  have "\<not> is_digit backslash" "\<not> is_hex backslash"
    by (simp_all add: is_digit_def is_hex_def backslash_def)
  with d h have "backslash \<notin> set ds" "backslash \<notin> set hs"
    by (auto simp: list_all_iff)
  with c show ?thesis by (simp add: backslash_def)
qed

lemma extractChipPrefix_upper_fixed:
  assumes "extractChipPrefix p = Some c"
  shows "toUpperCase c = c"
proof -
  from extractChipPrefix_shape[OF assms] obtain ds hs where
    c: "c = ds @ ''&'' @ hs" and d: "list_all is_digit ds" and h: "toUpperCase hs = hs" by blast
  show ?thesis
    unfolding c by (simp only: toUpperCase_append toUpperCase_amp toUpperCase_digits[OF d] h)
qed

subsection \<open>The checks of the store\<close>

lemma check_entries_ok_iff:
  "check_entries es = Inr True \<longleftrightarrow>
     (\<forall>e \<in> set es. keyPattern_test (fst e) \<and> \<not> port_out_of_range (snd e))"
  by (induction es rule: check_entries.induct) auto

lemma check_entries_cases: "check_entries es = Inr True \<or> (\<exists>e. check_entries es = Inl e)"
  by (induction es rule: check_entries.induct) auto

lemma validate_cases: "validate d = Inr True \<or> (\<exists>e. validate d = Inl e)"
  using check_entries_cases[of "entries (get_prop d ''mappings'')"]
  by (auto simp: validate_def)

lemma decimal_0: "decimal 0 = ''0''"
  by (simp add: decimal.simps digit_char_def)

lemma keyPattern_test_0: "\<not> keyPattern_test ''0''"
  by (simp add: keyPattern_test_def is_digit_def)

lemma entries_array_Cons:
  "entries (JArray (x # xs)) = (''0'', x) # zip (map decimal [1..<Suc (length xs)]) xs"
  by (simp add: upt_conv_Cons decimal_0 del: upt_Suc)

lemma check_entries_array:
  "check_entries (entries (JArray xs)) = Inr True \<longleftrightarrow> xs = []"
proof (cases xs)
  case Nil
  then show ?thesis by simp
next
  case (Cons x ys)
  then show ?thesis by (simp only: entries_array_Cons check_entries.simps keyPattern_test_0) simp
qed

lemma validate_ok_iff:
  "validate d = Inr True \<longleftrightarrow>
     (\<exists>kvs. d = JObject kvs \<and> obj_get kvs ''version'' = JString ''1.0'' \<and>
        (obj_get kvs ''mappings'' = JArray [] \<or>
         (\<exists>ms. obj_get kvs ''mappings'' = JObject ms \<and>
            (\<forall>e \<in> set ms. keyPattern_test (fst e) \<and> \<not> port_out_of_range (snd e)))))"
proof (cases d)
  case (JObject kvs)
  show ?thesis
  proof (cases "obj_get kvs ''mappings''")
    case (JArray xs)
    with JObject check_entries_array[of xs] show ?thesis
      by (simp add: validate_def SCHEMA_VERSION_def del: entries.simps)
  next
    case ms: (JObject ms)
    with JObject show ?thesis
      by (simp add: validate_def SCHEMA_VERSION_def check_entries_ok_iff)
  qed (use JObject in \<open>simp_all add: validate_def SCHEMA_VERSION_def\<close>)
qed (simp_all add: validate_def SCHEMA_VERSION_def)

text \<open>
  Apart from the empty array, \<open>validate\<close> accepts a document exactly when it is an object
  whose \<open>version\<close> is the string \<open>1.0\<close> and whose \<open>mappings\<close> is an object with every key
  matching the key pattern and every value an integer from 1 to 7.
\<close>

lemma validate_unless_empty_array:
  assumes "get_prop d ''mappings'' \<noteq> JArray []"
  shows "validate d = Inr True \<longleftrightarrow>
     (\<exists>kvs ms. d = JObject kvs \<and> obj_get kvs ''version'' = JString ''1.0'' \<and>
        obj_get kvs ''mappings'' = JObject ms \<and>
        (\<forall>e \<in> set ms. keyPattern_test (fst e) \<and>
           (\<exists>n::int. 1 \<le> n \<and> n \<le> 7 \<and> snd e = JNumber (Fin (of_int n)))))"
proof -
  have "validate d = Inr True \<longleftrightarrow>
     (\<exists>kvs. d = JObject kvs \<and> obj_get kvs ''version'' = JString ''1.0'' \<and>
        (obj_get kvs ''mappings'' = JArray [] \<or>
         (\<exists>ms. obj_get kvs ''mappings'' = JObject ms \<and>
            (\<forall>e \<in> set ms. keyPattern_test (fst e) \<and>
               (\<exists>n::int. 1 \<le> n \<and> n \<le> 7 \<and> snd e = JNumber (Fin (of_int n)))))))"
    by (simp only: validate_ok_iff port_in_range_iff)
  with assms show ?thesis by auto
qed

lemma validate_rejections:
  "\<exists>e. validate (JObject [(''version'', JString ''2.0''),
      (''mappings'', JObject [(''9&238498F1|2'', JNumber (Fin 5))])]) = Inl e"
  "\<exists>e. validate (JString ''1.0'') = Inl e"
  "\<exists>e. validate (JObject [(''version'', JString ''1.0'')]) = Inl e"
  "\<exists>e. validate (JObject [(''version'', JString ''1.0''),
      (''mappings'', JObject [(''9&238498F1|2'', JNumber (Fin 0))])]) = Inl e"
  "\<exists>e. validate (JObject [(''version'', JString ''1.0''),
      (''mappings'', JObject [(''9&238498F1|2'', JNumber (Fin 8))])]) = Inl e"
  "\<exists>e. validate (JObject [(''version'', JString ''1.0''),
      (''mappings'', JObject [(''abc|3'', JNumber (Fin 3))])]) = Inl e"
  "\<exists>e. validate (JObject [(''version'', JString ''1.0''),
      (''mappings'', JArray [JNumber (Fin 3)])]) = Inl e"
  by (simp_all add: validate_def SCHEMA_VERSION_def obj_get_def keyPattern_test_def is_digit_def
      is_hex_def isInteger_Fin decimal_0 del: isInteger.simps)

subsection \<open>Searching for the port pattern\<close>

lemma toUpperCase_char_eq_underscore: "toUpperCase_char c = CHR ''_'' \<longleftrightarrow> c = CHR ''_''"
proof (cases "c \<in> set ''abcdefghijklmnopqrstuvwxyz''")
  case True
  then show ?thesis by (simp, elim disjE) (simp_all add: toUpperCase_char_def)
next
  case False
  then show ?thesis by (simp add: toUpperCase_char_not_lower del: set_simps)
qed

lemma toUpperCase_char_eq_hash: "toUpperCase_char c = CHR ''#'' \<longleftrightarrow> c = CHR ''#''"
proof (cases "c \<in> set ''abcdefghijklmnopqrstuvwxyz''")
  case True
  then show ?thesis by (simp, elim disjE) (simp_all add: toUpperCase_char_def)
next
  case False
  then show ?thesis by (simp add: toUpperCase_char_not_lower del: set_simps)
qed

lemma ci_eq_letters:
  "ci_eq c (CHR ''P'') \<longleftrightarrow> toUpperCase_char c = CHR ''P''"
  "ci_eq c (CHR ''o'') \<longleftrightarrow> toUpperCase_char c = CHR ''O''"
  "ci_eq c (CHR ''r'') \<longleftrightarrow> toUpperCase_char c = CHR ''R''"
  "ci_eq c (CHR ''t'') \<longleftrightarrow> toUpperCase_char c = CHR ''T''"
proof -
  have "toUpperCase_char (CHR ''P'') = CHR ''P''" "toUpperCase_char (CHR ''o'') = CHR ''O''"
    "toUpperCase_char (CHR ''r'') = CHR ''R''" "toUpperCase_char (CHR ''t'') = CHR ''T''"
    by (simp_all add: toUpperCase_char_def)
  then show "ci_eq c (CHR ''P'') \<longleftrightarrow> toUpperCase_char c = CHR ''P''"
  "ci_eq c (CHR ''o'') \<longleftrightarrow> toUpperCase_char c = CHR ''O''"
  "ci_eq c (CHR ''r'') \<longleftrightarrow> toUpperCase_char c = CHR ''R''"
  "ci_eq c (CHR ''t'') \<longleftrightarrow> toUpperCase_char c = CHR ''T''"
    by (simp_all only: ci_eq_def)
qed

lemma port_match_at_Cons6:
  "port_match_at (c1 # c2 # c3 # c4 # c5 # c6 # r) =
     (if toUpperCase [c1, c2, c3, c4, c5, c6] = ''PORT_#'' \<and> takeWhile is_digit r \<noteq> []
      then Some (takeWhile is_digit r) else None)"
  by (auto simp: port_match_at_def ci_eq_letters toUpperCase_def toUpperCase_char_eq_underscore
      toUpperCase_char_eq_hash)

lemma port_match_at_short: "length s < 6 \<Longrightarrow> port_match_at s = None"
  by (auto simp: port_match_at_def split: list.splits)

lemma length_PORT: "toUpperCase p = ''PORT_#'' \<Longrightarrow> length p = 6"
proof -
  assume "toUpperCase p = ''PORT_#''"
  then have "length (toUpperCase p) = 6" by simp
  then show ?thesis by (simp add: toUpperCase_def)
qed

lemma port_match_at_Some_iff:
  "port_match_at s = Some ds \<longleftrightarrow>
     (\<exists>p r. s = p @ r \<and> toUpperCase p = ''PORT_#'' \<and> ds = takeWhile is_digit r \<and> ds \<noteq> [])"
proof
  assume a: "port_match_at s = Some ds"
  have "\<not> length s < 6" using a port_match_at_short[of s] by auto
  then obtain c1 c2 c3 c4 c5 c6 r where s: "s = c1 # c2 # c3 # c4 # c5 # c6 # r"
    by (auto simp: not_less Suc_le_length_iff eval_nat_numeral)
  with a have "toUpperCase [c1, c2, c3, c4, c5, c6] = ''PORT_#''"
    and "ds = takeWhile is_digit r" and "ds \<noteq> []"
    by (auto simp only: port_match_at_Cons6 split: if_splits)
  with s show "\<exists>p r. s = p @ r \<and> toUpperCase p = ''PORT_#'' \<and> ds = takeWhile is_digit r \<and> ds \<noteq> []"
    by (intro exI[of _ "[c1, c2, c3, c4, c5, c6]"] exI[of _ r]) simp
next
  assume "\<exists>p r. s = p @ r \<and> toUpperCase p = ''PORT_#'' \<and> ds = takeWhile is_digit r \<and> ds \<noteq> []"
  then obtain p r where s: "s = p @ r" and p: "toUpperCase p = ''PORT_#''"
    and ds: "ds = takeWhile is_digit r" "ds \<noteq> []" by blast
  from length_PORT[OF p] obtain c1 c2 c3 c4 c5 c6 where pp: "p = [c1, c2, c3, c4, c5, c6]"
    by (auto simp: length_Suc_conv eval_nat_numeral)
  with s p ds show "port_match_at s = Some ds"
    by (simp only: append_Cons append_Nil port_match_at_Cons6 if_True simp_thms)
qed

lemma port_search_exists:
  "toUpperCase p = ''PORT_#'' \<Longrightarrow> is_digit d \<Longrightarrow> port_search (pre @ p @ d # rest) \<noteq> None"
proof (induction pre)
  case Nil
  have "port_match_at (p @ d # rest) = Some (takeWhile is_digit (d # rest))"
    unfolding port_match_at_Some_iff using Nil by (intro exI[of _ p] exI[of _ "d # rest"]) simp
  moreover obtain c cs where "p @ d # rest = c # cs" by (cases "p @ d # rest") auto
  ultimately show ?case by simp
next
  case (Cons c pre)
  then show ?case by (simp split: option.splits)
qed

lemma port_search_sound:
  "port_search l = Some ds \<Longrightarrow>
     \<exists>pre p rest. l = pre @ p @ ds @ rest \<and> toUpperCase p = ''PORT_#'' \<and> ds \<noteq> [] \<and>
       list_all is_digit ds \<and> (rest = [] \<or> \<not> is_digit (hd rest))"
proof (induction l)
  case Nil
  then show ?case by simp
next
  case (Cons c cs)
  show ?case
  proof (cases "port_match_at (c # cs)")
    case None
    with Cons.prems have "port_search cs = Some ds" by simp
    from Cons.IH[OF this] obtain pre p rest where
      "cs = pre @ p @ ds @ rest" "toUpperCase p = ''PORT_#''" "ds \<noteq> []"
      "list_all is_digit ds" "rest = [] \<or> \<not> is_digit (hd rest)" by blast
    then show ?thesis by (intro exI[of _ "c # pre"] exI[of _ p] exI[of _ rest]) simp
  next
    case (Some g)
    with Cons.prems have g: "port_match_at (c # cs) = Some ds" by simp
    then obtain p r where pr: "c # cs = p @ r" "toUpperCase p = ''PORT_#''"
      "ds = takeWhile is_digit r" "ds \<noteq> []"
      unfolding port_match_at_Some_iff by blast
    have "r = ds @ dropWhile is_digit r" by (simp add: pr(3))
    moreover have "list_all is_digit ds"
      unfolding pr(3) list_all_iff by (auto dest: set_takeWhileD)
    moreover have "dropWhile is_digit r = [] \<or> \<not> is_digit (hd (dropWhile is_digit r))"
      using hd_dropWhile[of is_digit r] by blast
    ultimately show ?thesis
      using pr by (intro exI[of _ "[]"] exI[of _ p] exI[of _ "dropWhile is_digit r"]) simp
  qed
qed

lemma port_match_at_long:
  assumes "7 \<le> length a"
  shows "port_match_at (a @ b) = None \<longleftrightarrow> port_match_at a = None"
proof -
  from assms obtain c1 c2 c3 c4 c5 c6 c7 a' where "a = c1 # c2 # c3 # c4 # c5 # c6 # c7 # a'"
    by (auto simp: Suc_le_length_iff eval_nat_numeral)
  then show ?thesis by (simp only: append_Cons port_match_at_Cons6 takeWhile.simps) simp
qed

lemma port_search_first:
  assumes "toUpperCase p = ''PORT_#''" and "ds \<noteq> []" and "list_all is_digit ds"
    and "rest = [] \<or> \<not> is_digit (hd rest)"
  shows "port_search (pre @ p) = None \<Longrightarrow> port_search (pre @ p @ ds @ rest) = Some ds"
proof (induction pre)
  case Nil
  from takeWhile_run(1)[OF assms(3,4)] assms(1,2)
  have "port_match_at (p @ ds @ rest) = Some ds"
    unfolding port_match_at_Some_iff by (intro exI[of _ p] exI[of _ "ds @ rest"]) simp
  moreover obtain c cs where "p @ ds @ rest = c # cs" using assms(2) by (cases "p @ ds @ rest") auto
  ultimately show ?case by simp
next
  case (Cons c pre)
  from length_PORT[OF assms(1)] have len: "7 \<le> length ((c # pre) @ p)" by simp
  from Cons.prems have m: "port_match_at ((c # pre) @ p) = None" and s: "port_search (pre @ p) = None"
    by (simp_all split: option.splits)
  from port_match_at_long[OF len, of "ds @ rest"] m
  have "port_match_at ((c # pre) @ p @ ds @ rest) = None" by simp
  with Cons.IH[OF s] show ?case by simp
qed

subsection \<open>The port index in terms of the search\<close>

lemma extractPortIndex_Some:
  "port_search l = Some ds \<Longrightarrow> extractPortIndex (Some l) = Some (number_toString (parseInt10 ds))"
  by (cases l) (simp_all add: extractPortIndex_def)

lemma extractPortIndex_None_iff:
  "extractPortIndex (Some l) = None \<longleftrightarrow> port_search l = None"
  by (cases l) (simp_all add: extractPortIndex_def split: option.splits)

subsection \<open>Evaluating the conversion at \<open>2^53\<close>\<close>

lemma decimal_2_53: "decimal 9007199254740992 = ''9007199254740992''"
  by (simp add: decimal.simps digit_char_def)

lemma round_double_54_eval:
  "9007199254740992 \<le> v \<Longrightarrow> v < 18014398509481984 \<Longrightarrow>
     round_double v = Finite (2 * (if odd v \<and> odd (v div 2) then v div 2 + 1 else v div 2))"
  using round_double_54[of v] by simp

lemma round_double_exact_eval: "v < 9007199254740992 \<Longrightarrow> round_double v = Finite v"
  using round_double_exact[of v] by simp

lemmas cand_eval = candidates_def decimal_2_53 round_double_exact_eval round_double_54_eval

lemma candidates_2_53:
  "candidates 9007199254740992 1 = []" "candidates 9007199254740992 2 = []"
  "candidates 9007199254740992 3 = []" "candidates 9007199254740992 4 = []"
  "candidates 9007199254740992 5 = []" "candidates 9007199254740992 6 = []"
  "candidates 9007199254740992 7 = []" "candidates 9007199254740992 8 = []"
  "candidates 9007199254740992 9 = []" "candidates 9007199254740992 10 = []"
  "candidates 9007199254740992 11 = []" "candidates 9007199254740992 12 = []"
  "candidates 9007199254740992 13 = []" "candidates 9007199254740992 14 = []"
  "candidates 9007199254740992 15 = []"
  by (simp_all add: cand_eval)

lemma closest_2_53:
  "closest 9007199254740992 16 (candidates 9007199254740992 16) = Some (16, 9007199254740992)"
  by (simp add: cand_eval closer_def dist_def)

lemma shortest_from_step:
  "k \<le> length (decimal x) \<Longrightarrow> candidates x k = [] \<Longrightarrow>
     shortest_from x k = shortest_from x (k + 1)"
  by (subst shortest_from.simps) simp

lemma shortest_from_found:
  "k \<le> length (decimal x) \<Longrightarrow> closest x k (candidates x k) = Some (n, s) \<Longrightarrow>
     shortest_from x k = (n, k, s)"
  by (subst shortest_from.simps) simp

lemma shortest_2_53: "shortest_from 9007199254740992 1 = (16, 16, 9007199254740992)"
proof -
  have e1: "shortest_from 9007199254740992 1 = shortest_from 9007199254740992 2"
    using shortest_from_step[of 1 9007199254740992] candidates_2_53(1)
    by (simp add: decimal_2_53 numeral_2_eq_2[symmetric])
  have e2: "shortest_from 9007199254740992 2 = shortest_from 9007199254740992 3"
    using shortest_from_step[of 2 9007199254740992] candidates_2_53(2) by (simp add: decimal_2_53)
  have e3: "shortest_from 9007199254740992 3 = shortest_from 9007199254740992 4"
    using shortest_from_step[of 3 9007199254740992] candidates_2_53(3) by (simp add: decimal_2_53)
  have e4: "shortest_from 9007199254740992 4 = shortest_from 9007199254740992 5"
    using shortest_from_step[of 4 9007199254740992] candidates_2_53(4) by (simp add: decimal_2_53)
  have e5: "shortest_from 9007199254740992 5 = shortest_from 9007199254740992 6"
    using shortest_from_step[of 5 9007199254740992] candidates_2_53(5) by (simp add: decimal_2_53)
  have e6: "shortest_from 9007199254740992 6 = shortest_from 9007199254740992 7"
    using shortest_from_step[of 6 9007199254740992] candidates_2_53(6) by (simp add: decimal_2_53)
  have e7: "shortest_from 9007199254740992 7 = shortest_from 9007199254740992 8"
    using shortest_from_step[of 7 9007199254740992] candidates_2_53(7) by (simp add: decimal_2_53)
  have e8: "shortest_from 9007199254740992 8 = shortest_from 9007199254740992 9"
    using shortest_from_step[of 8 9007199254740992] candidates_2_53(8) by (simp add: decimal_2_53)
  have e9: "shortest_from 9007199254740992 9 = shortest_from 9007199254740992 10"
    using shortest_from_step[of 9 9007199254740992] candidates_2_53(9) by (simp add: decimal_2_53)
  have e10: "shortest_from 9007199254740992 10 = shortest_from 9007199254740992 11"
    using shortest_from_step[of 10 9007199254740992] candidates_2_53(10) by (simp add: decimal_2_53)
  have e11: "shortest_from 9007199254740992 11 = shortest_from 9007199254740992 12"
    using shortest_from_step[of 11 9007199254740992] candidates_2_53(11) by (simp add: decimal_2_53)
  have e12: "shortest_from 9007199254740992 12 = shortest_from 9007199254740992 13"
    using shortest_from_step[of 12 9007199254740992] candidates_2_53(12) by (simp add: decimal_2_53)
  have e13: "shortest_from 9007199254740992 13 = shortest_from 9007199254740992 14"
    using shortest_from_step[of 13 9007199254740992] candidates_2_53(13) by (simp add: decimal_2_53)
  have e14: "shortest_from 9007199254740992 14 = shortest_from 9007199254740992 15"
    using shortest_from_step[of 14 9007199254740992] candidates_2_53(14) by (simp add: decimal_2_53)
  have e15: "shortest_from 9007199254740992 15 = shortest_from 9007199254740992 16"
    using shortest_from_step[of 15 9007199254740992] candidates_2_53(15) by (simp add: decimal_2_53)
  have e16: "shortest_from 9007199254740992 16 = (16, 16, 9007199254740992)"
    using shortest_from_found[OF _ closest_2_53] by (simp add: decimal_2_53)
  show ?thesis
    by (simp only: e1 e2 e3 e4 e5 e6 e7 e8 e9 e10 e11 e12 e13 e14 e15 e16)
qed

subsection \<open>Evaluating the conversion at \<open>10^21\<close>\<close>

lemma decimal_1e21: "decimal 1000000000000000000000 = ''1000000000000000000000''"
  by (simp add: decimal.simps digit_char_def)

lemma round_double_1e21_eval:
  "round_double 1000000000000000000000 = Finite 1000000000000000000000"
  using round_double_1e21 by simp

lemma round_double_2e21_eval:
  "round_double 2000000000000000000000 = Finite 2000000000000000000000"
  by (simp add: round_double_def bitlen.simps Let_def)

lemma round_double_1e22_eval:
  "round_double 10000000000000000000000 = Finite 10000000000000000000000"
  by (simp add: round_double_def bitlen.simps Let_def)

lemma closest_1e21:
  "closest 1000000000000000000000 1 (candidates 1000000000000000000000 1) = Some (22, 1)"
  by (simp add: candidates_def decimal_1e21 round_double_1e21_eval round_double_2e21_eval
      round_double_1e22_eval)

lemma number_toString_1e21: "number_toString (Finite 1000000000000000000000) = ''1e+21''"
proof -
  have "shortest_from 1000000000000000000000 1 = (22, 1, 1)"
    using shortest_from_found[OF _ closest_1e21] by (simp add: decimal_1e21)
  then show ?thesis
    by (simp add: number_toString_def decimal.simps digit_char_def)
qed

subsection \<open>When a produced key matches the key pattern\<close>

text \<open>
  The bound is sharp: a produced key matches the pattern exactly when \<open>parseInt\<close>
  returned a Number below \<open>10^21\<close>.
\<close>

lemma key_pattern_iff:
  assumes "normalizeLocation (Some l) parent = Some key" and "port_search l = Some ds"
  shows "keyPattern_test key \<longleftrightarrow> (\<exists>x. parseInt10 ds = Finite x \<and> x < 10 ^ 21)"
proof -
  from assms(1) obtain c i where c: "extractChipPrefix parent = Some c"
    and i: "extractPortIndex (Some l) = Some i" and key: "key = c @ ''|'' @ i"
    unfolding normalizeLocation_Some_iff by blast
  from assms(2) i have i': "i = number_toString (parseInt10 ds)"
    using extractPortIndex_Some[of l ds] by simp
  from extractChipPrefix_shape[OF c] obtain ds' hs where
    sh: "c = ds' @ ''&'' @ hs" "ds' \<noteq> []" "hs \<noteq> []" "list_all is_digit ds'" "list_all is_hex hs"
    by blast
  have "keyPattern_test (ds' @ ''&'' @ hs @ ''|'' @ i) \<longleftrightarrow> i \<noteq> [] \<and> list_all is_digit i"
    using sh by (intro keyPattern_test_shape) simp_all
  with key sh(1) have "keyPattern_test key \<longleftrightarrow> i \<noteq> [] \<and> list_all is_digit i" by simp
  with i' show ?thesis
    by (simp add: number_toString_nonempty number_toString_digits_iff)
qed

section \<open>The claims\<close>

subsection \<open>C1\<close>

text \<open>
  C1. For the observation with location \<open>Port_#0002.Hub_#0008\<close> and parent
  \<open>USB\VID_2109&PID_0822\9&238498F1&0&3\<close>, \<open>normalizeLocation\<close> returns the key
  \<open>9&238498F1|2\<close>; \<open>addMapping\<close> with port 5 on an empty mapper returns that key and
  leaves the mapping \<open>{"9&238498F1|2": 5}\<close>; \<open>getPhysicalPort\<close> on that mapper with the
  same location and parent returns 5.
\<close>

theorem C1_end_to_end:
  "normalizeLocation (Some ''Port_#0002.Hub_#0008'')
     (Some (''USB'' @ CHR 0x5C # ''VID_2109&PID_0822'' @ CHR 0x5C # ''9&238498F1&0&3''))
     = Some ''9&238498F1|2'' \<and>
   addMapping \<lparr>mappings = []\<rparr> (Some ''Port_#0002.Hub_#0008'')
     (Some (''USB'' @ CHR 0x5C # ''VID_2109&PID_0822'' @ CHR 0x5C # ''9&238498F1&0&3''))
     (JNumber (Fin 5))
     = (Inr ''9&238498F1|2'', \<lparr>mappings = [(''9&238498F1|2'', JNumber (Fin 5))]\<rparr>) \<and>
   getPhysicalPort \<lparr>mappings = [(''9&238498F1|2'', JNumber (Fin 5))]\<rparr>
     (Some ''Port_#0002.Hub_#0008'')
     (Some (''USB'' @ CHR 0x5C # ''VID_2109&PID_0822'' @ CHR 0x5C # ''9&238498F1&0&3''))
     = JNumber (Fin 5)"
  using example_key
  by (simp add: addMapping_def getPhysicalPort_def obj_get_def js_or_def isInteger_Fin
      del: isInteger.simps)

theorem C1_end_to_end_witness:
  "getPhysicalPort
     (snd (addMapping \<lparr>mappings = []\<rparr> (Some ''Port_#0002.Hub_#0008'')
       (Some (''USB'' @ CHR 0x5C # ''VID_2109&PID_0822'' @ CHR 0x5C # ''9&238498F1&0&3''))
       (JNumber (Fin 5))))
     (Some ''Port_#0002.Hub_#0008'')
     (Some (''USB'' @ CHR 0x5C # ''VID_2109&PID_0822'' @ CHR 0x5C # ''9&238498F1&0&3''))
     = JNumber (Fin 5)"
  using C1_end_to_end by simp

subsection \<open>C2\<close>

text \<open>
  C2. \<open>addMapping\<close> throws the normalization error exactly when \<open>normalizeLocation\<close> is
  absent; otherwise it throws the invalid-port error exactly when the port number is not an
  integer from 1 to 7 (0, 8, 3/2 and the string "5" are rejected, 1 and 7 accepted); a throw
  leaves the mapper unchanged; otherwise it returns the derived key, the key then holds the
  port number, and every other key holds what it held before.
\<close>

theorem C2_addMapping:
  "(fst (addMapping m location parent port) = Inl CannotNormalize \<longleftrightarrow>
      normalizeLocation location parent = None) \<and>
   (fst (addMapping m location parent port) = Inl PortNotInteger1to7 \<longleftrightarrow>
      normalizeLocation location parent \<noteq> None \<and>
      \<not> (\<exists>n::int. 1 \<le> n \<and> n \<le> 7 \<and> port = JNumber (Fin (of_int n)))) \<and>
   (\<forall>e. fst (addMapping m location parent port) = Inl e \<longrightarrow>
      snd (addMapping m location parent port) = m) \<and>
   (\<forall>key n. normalizeLocation location parent = Some key \<and> 1 \<le> n \<and> n \<le> 7 \<and>
        port = JNumber (Fin (of_int (n::int))) \<longrightarrow>
      fst (addMapping m location parent port) = Inr key \<and>
      obj_get (mappings (snd (addMapping m location parent port))) key = port \<and>
      (\<forall>k. k \<noteq> key \<longrightarrow>
         obj_get (mappings (snd (addMapping m location parent port))) k = obj_get (mappings m) k)) \<and>
   port_out_of_range (JNumber (Fin 0)) \<and> port_out_of_range (JNumber (Fin 8)) \<and>
   port_out_of_range (JNumber (Fin (3 / 2))) \<and> port_out_of_range (JString ''5'') \<and>
   \<not> port_out_of_range (JNumber (Fin 1)) \<and> \<not> port_out_of_range (JNumber (Fin 7))"
proof -
  have bounds:
    "port_out_of_range (JNumber (Fin 0)) \<and> port_out_of_range (JNumber (Fin 8)) \<and>
     port_out_of_range (JNumber (Fin (3 / 2))) \<and> port_out_of_range (JString ''5'') \<and>
     \<not> port_out_of_range (JNumber (Fin 1)) \<and> \<not> port_out_of_range (JNumber (Fin 7))"
    by (simp add: isInteger_Fin del: isInteger.simps)
  have main:
    "(fst (addMapping m location parent port) = Inl CannotNormalize \<longleftrightarrow>
        normalizeLocation location parent = None) \<and>
     (fst (addMapping m location parent port) = Inl PortNotInteger1to7 \<longleftrightarrow>
        normalizeLocation location parent \<noteq> None \<and>
        \<not> (\<exists>n::int. 1 \<le> n \<and> n \<le> 7 \<and> port = JNumber (Fin (of_int n)))) \<and>
     (\<forall>e. fst (addMapping m location parent port) = Inl e \<longrightarrow>
        snd (addMapping m location parent port) = m) \<and>
     (\<forall>key n. normalizeLocation location parent = Some key \<and> 1 \<le> n \<and> n \<le> 7 \<and>
          port = JNumber (Fin (of_int (n::int))) \<longrightarrow>
        fst (addMapping m location parent port) = Inr key \<and>
        obj_get (mappings (snd (addMapping m location parent port))) key = port \<and>
        (\<forall>k. k \<noteq> key \<longrightarrow>
           obj_get (mappings (snd (addMapping m location parent port))) k = obj_get (mappings m) k))"
  proof (cases "normalizeLocation location parent")
    case None
    then show ?thesis by (simp add: addMapping_def)
  next
    case (Some key)
    note ne = normalizeLocation_nonempty[OF Some]
    show ?thesis
    proof (cases "port_out_of_range port")
      case True
      then have "\<not> (\<exists>n::int. 1 \<le> n \<and> n \<le> 7 \<and> port = JNumber (Fin (of_int n)))"
        using port_in_range_iff[of port] by blast
      with True Some ne show ?thesis by (auto simp: addMapping_def)
    next
      case False
      then have "\<exists>n::int. 1 \<le> n \<and> n \<le> 7 \<and> port = JNumber (Fin (of_int n))"
        using port_in_range_iff[of port] by blast
      with False Some ne show ?thesis by (auto simp: addMapping_def obj_get_obj_set)
    qed
  qed
  from main bounds show ?thesis by blast
qed

theorem C2_addMapping_witness:
  "fst (addMapping \<lparr>mappings = [(''9&238498F1|2'', JNumber (Fin 5))]\<rparr>
        (Some ''Port_#0002.Hub_#0008'')
        (Some (''USB'' @ CHR 0x5C # ''VID_2109&PID_0822'' @ CHR 0x5C # ''9&238498F1&0&3''))
        (JNumber (Fin 7))) = Inr ''9&238498F1|2'' \<and>
   obj_get (mappings (snd (addMapping \<lparr>mappings = [(''9&238498F1|2'', JNumber (Fin 5))]\<rparr>
        (Some ''Port_#0002.Hub_#0008'')
        (Some (''USB'' @ CHR 0x5C # ''VID_2109&PID_0822'' @ CHR 0x5C # ''9&238498F1&0&3''))
        (JNumber (Fin 7))))) ''9&238498F1|2'' = JNumber (Fin 7) \<and>
   fst (addMapping \<lparr>mappings = [(''9&238498F1|2'', JNumber (Fin 5))]\<rparr>
        (Some ''Port_#0002.Hub_#0008'')
        (Some (''USB'' @ CHR 0x5C # ''VID_2109&PID_0822'' @ CHR 0x5C # ''9&238498F1&0&3''))
        (JNumber (Fin 8))) = Inl PortNotInteger1to7 \<and>
   snd (addMapping \<lparr>mappings = [(''9&238498F1|2'', JNumber (Fin 5))]\<rparr>
        (Some ''Port_#0002.Hub_#0008'')
        (Some (''USB'' @ CHR 0x5C # ''VID_2109&PID_0822'' @ CHR 0x5C # ''9&238498F1&0&3''))
        (JNumber (Fin 8))) = \<lparr>mappings = [(''9&238498F1|2'', JNumber (Fin 5))]\<rparr> \<and>
   fst (addMapping \<lparr>mappings = [(''9&238498F1|2'', JNumber (Fin 5))]\<rparr>
        (Some ''Hub_#0008'') None (JNumber (Fin 7))) = Inl CannotNormalize"
proof -
  have k: "normalizeLocation (Some ''Port_#0002.Hub_#0008'')
     (Some (''USB'' @ CHR 0x5C # ''VID_2109&PID_0822'' @ CHR 0x5C # ''9&238498F1&0&3''))
     = Some ''9&238498F1|2''"
    by (rule example_key)
  have n: "normalizeLocation (Some ''Hub_#0008'') None = None"
    by (simp add: normalizeLocation_def extractChipPrefix_def)
  have a7: "(1::int) \<le> 7 \<and> (7::int) \<le> 7 \<and> JNumber (Fin 7) = JNumber (Fin (of_int 7))"
    by simp
  have a8: "\<not> (\<exists>n::int. 1 \<le> n \<and> n \<le> 7 \<and> JNumber (Fin 8) = JNumber (Fin (of_int n)))"
    by auto
  note t7 = C2_addMapping [of "\<lparr>mappings = [(''9&238498F1|2'', JNumber (Fin 5))]\<rparr>"
      "Some ''Port_#0002.Hub_#0008''"
      "Some (''USB'' @ CHR 0x5C # ''VID_2109&PID_0822'' @ CHR 0x5C # ''9&238498F1&0&3'')"
      "JNumber (Fin 7)"]
  note t8 = C2_addMapping [of "\<lparr>mappings = [(''9&238498F1|2'', JNumber (Fin 5))]\<rparr>"
      "Some ''Port_#0002.Hub_#0008''"
      "Some (''USB'' @ CHR 0x5C # ''VID_2109&PID_0822'' @ CHR 0x5C # ''9&238498F1&0&3'')"
      "JNumber (Fin 8)"]
  note tn = C2_addMapping [of "\<lparr>mappings = [(''9&238498F1|2'', JNumber (Fin 5))]\<rparr>"
      "Some ''Hub_#0008''" None "JNumber (Fin 7)"]
  have "fst (addMapping \<lparr>mappings = [(''9&238498F1|2'', JNumber (Fin 5))]\<rparr>
        (Some ''Port_#0002.Hub_#0008'')
        (Some (''USB'' @ CHR 0x5C # ''VID_2109&PID_0822'' @ CHR 0x5C # ''9&238498F1&0&3''))
        (JNumber (Fin 7))) = Inr ''9&238498F1|2'' \<and>
     obj_get (mappings (snd (addMapping \<lparr>mappings = [(''9&238498F1|2'', JNumber (Fin 5))]\<rparr>
        (Some ''Port_#0002.Hub_#0008'')
        (Some (''USB'' @ CHR 0x5C # ''VID_2109&PID_0822'' @ CHR 0x5C # ''9&238498F1&0&3''))
        (JNumber (Fin 7))))) ''9&238498F1|2'' = JNumber (Fin 7)"
    using t7 k a7 by blast
  moreover have e8: "fst (addMapping \<lparr>mappings = [(''9&238498F1|2'', JNumber (Fin 5))]\<rparr>
        (Some ''Port_#0002.Hub_#0008'')
        (Some (''USB'' @ CHR 0x5C # ''VID_2109&PID_0822'' @ CHR 0x5C # ''9&238498F1&0&3''))
        (JNumber (Fin 8))) = Inl PortNotInteger1to7"
    using t8 k a8 by simp
  moreover have "snd (addMapping \<lparr>mappings = [(''9&238498F1|2'', JNumber (Fin 5))]\<rparr>
        (Some ''Port_#0002.Hub_#0008'')
        (Some (''USB'' @ CHR 0x5C # ''VID_2109&PID_0822'' @ CHR 0x5C # ''9&238498F1&0&3''))
        (JNumber (Fin 8))) = \<lparr>mappings = [(''9&238498F1|2'', JNumber (Fin 5))]\<rparr>"
    using t8 e8 by blast
  moreover have "fst (addMapping \<lparr>mappings = [(''9&238498F1|2'', JNumber (Fin 5))]\<rparr>
        (Some ''Hub_#0008'') None (JNumber (Fin 7))) = Inl CannotNormalize"
    using tn n by blast
  ultimately show ?thesis by blast
qed

subsection \<open>C3\<close>

text \<open>
  C3 as stated fails: from \<open>10^21\<close> on, \<open>String\<close> writes a Number in exponent notation,
  and the key built from it does not match the key pattern of the store.
\<close>

theorem C3_exponent_counterexample:
  "normalizeLocation (Some ''Port_#1000000000000000000000'')
     (Some (''USB'' @ CHR 0x5C # ''VID_2109&PID_0822'' @ CHR 0x5C # ''9&238498F1&0&3''))
     = Some ''9&238498F1|1e+21'' \<and>
   \<not> keyPattern_test ''9&238498F1|1e+21''"
proof -
  have p: "port_search ''Port_#1000000000000000000000'' = Some ''1000000000000000000000''"
    by (simp add: port_match_at_Cons6 toUpperCase_def toUpperCase_char_def is_digit_def)
  have v: "digits_val ''1000000000000000000000'' = 1000000000000000000000"
    by (simp add: digits_val_def digit_val_def)
  from extractPortIndex_Some[OF p] v
  have "extractPortIndex (Some ''Port_#1000000000000000000000'') = Some ''1e+21''"
    by (simp add: parseInt10_def round_double_1e21_eval number_toString_1e21)
  with example_chip
  have "normalizeLocation (Some ''Port_#1000000000000000000000'')
     (Some (''USB'' @ CHR 0x5C # ''VID_2109&PID_0822'' @ CHR 0x5C # ''9&238498F1&0&3''))
     = Some ''9&238498F1|1e+21''"
    by (simp add: normalizeLocation_def)
  moreover have "\<not> keyPattern_test ''9&238498F1|1e+21''"
    by (simp add: keyPattern_test_def is_digit_def is_hex_def)
  ultimately show ?thesis by blast
qed

text \<open>
  C3, amended. When \<open>normalizeLocation\<close> produces a key and the Number that \<open>parseInt\<close>
  returns for the digits after \<open>Port_#\<close> is below \<open>10^21\<close>, the key matches the key
  pattern of the store; that is the case whenever the digits denote a number below
  \<open>10^20\<close>. \<open>normalizeLocation\<close> is absent exactly when \<open>extractChipPrefix\<close> or
  \<open>extractPortIndex\<close> is absent.
\<close>

theorem C3_key_pattern:
  "(normalizeLocation (Some l) parent = Some key \<and> port_search l = Some ds \<and>
      parseInt10 ds = Finite x \<and> x < 10 ^ 21 \<longrightarrow> keyPattern_test key) \<and>
   (digits_val ds < 10 ^ 20 \<longrightarrow> (\<exists>x. parseInt10 ds = Finite x \<and> x < 10 ^ 21)) \<and>
   (normalizeLocation location parent = None \<longleftrightarrow>
      extractChipPrefix parent = None \<or> extractPortIndex location = None)"
proof (intro conjI impI)
  assume a: "normalizeLocation (Some l) parent = Some key \<and> port_search l = Some ds \<and>
      parseInt10 ds = Finite x \<and> x < 10 ^ 21"
  then have "keyPattern_test key \<longleftrightarrow> (\<exists>x. parseInt10 ds = Finite x \<and> x < 10 ^ 21)"
    using key_pattern_iff[of l parent key ds] by blast
  with a show "keyPattern_test key" by blast
next
  assume "digits_val ds < 10 ^ 20"
  then show "\<exists>x. parseInt10 ds = Finite x \<and> x < 10 ^ 21" by (rule parseInt10_small)
next
  show "normalizeLocation location parent = None \<longleftrightarrow>
      extractChipPrefix parent = None \<or> extractPortIndex location = None"
    by (rule normalizeLocation_None_iff)
qed

theorem C3_key_pattern_witness:
  "keyPattern_test ''9&238498F1|2'' \<and>
   normalizeLocation (Some ''Hub_#0008'')
     (Some (''USB'' @ CHR 0x5C # ''VID_2109&PID_0822'' @ CHR 0x5C # ''9&238498F1&0&3'')) = None \<and>
   normalizeLocation (Some ''Port_#0002.Hub_#0008'') (Some ''USB'') = None"
proof -
  have p: "port_search ''Port_#0002.Hub_#0008'' = Some ''0002''"
    by (simp add: port_match_at_Cons6 toUpperCase_def toUpperCase_char_def is_digit_def)
  have v: "digits_val ''0002'' < 10 ^ 20"
    by (simp add: digits_val_def digit_val_def)
  have h: "extractPortIndex (Some ''Hub_#0008'') = None"
    by (simp add: extractPortIndex_def port_match_at_Cons6 port_match_at_short toUpperCase_def
        toUpperCase_char_def)
  have u: "extractChipPrefix (Some ''USB'') = None"
    by (simp add: chip_eval)
  have x: "parseInt10 ''0002'' = Finite 2 \<and> (2::nat) < 10 ^ 21"
    by (simp add: parseInt10_def digits_val_def digit_val_def round_double_def)
  note t = C3_key_pattern [of "''Port_#0002.Hub_#0008''"
      "Some (''USB'' @ CHR 0x5C # ''VID_2109&PID_0822'' @ CHR 0x5C # ''9&238498F1&0&3'')"
      "''9&238498F1|2''" "''0002''" 2]
  from t example_key p x have "keyPattern_test ''9&238498F1|2''" by blast
  moreover from C3_key_pattern [where location = "Some ''Hub_#0008''" and parent =
      "Some (''USB'' @ CHR 0x5C # ''VID_2109&PID_0822'' @ CHR 0x5C # ''9&238498F1&0&3'')"] h
  have "normalizeLocation (Some ''Hub_#0008'')
     (Some (''USB'' @ CHR 0x5C # ''VID_2109&PID_0822'' @ CHR 0x5C # ''9&238498F1&0&3'')) = None"
    by blast
  moreover from C3_key_pattern [where location = "Some ''Port_#0002.Hub_#0008''" and
      parent = "Some ''USB''"] u
  have "normalizeLocation (Some ''Port_#0002.Hub_#0008'') (Some ''USB'') = None"
    by blast
  ultimately show ?thesis by blast
qed

subsection \<open>C4\<close>

text \<open>
  C4. \<open>isCalibrated\<close> is true exactly when the mapping holds at least 7 entries: false
  with 6 entries, true with 7 and with 8 or more, whatever port numbers the entries hold
  (replacing every stored value by any other does not change the answer).
\<close>

theorem C4_isCalibrated:
  "isCalibrated m = (7 \<le> length (mappings m)) \<and>
   isCalibrated m = (7 \<le> getMappingCount m) \<and>
   (length (mappings m) = 6 \<longrightarrow> \<not> isCalibrated m) \<and>
   (length (mappings m) = 7 \<longrightarrow> isCalibrated m) \<and>
   (8 \<le> length (mappings m) \<longrightarrow> isCalibrated m) \<and>
   isCalibrated (m\<lparr>mappings := map (\<lambda>(key, v). (key, f key v)) (mappings m)\<rparr>) = isCalibrated m"
  by (simp add: isCalibrated_def getMappingCount_def obj_keys_def)

theorem C4_isCalibrated_witness:
  "\<not> isCalibrated \<lparr>mappings =
      [(''1&A|1'', JNumber (Fin 1)), (''1&A|2'', JNumber (Fin 1)), (''1&A|3'', JNumber (Fin 1)),
       (''1&A|4'', JNumber (Fin 1)), (''1&A|5'', JNumber (Fin 1)), (''1&A|6'', JNumber (Fin 1))]\<rparr> \<and>
   isCalibrated \<lparr>mappings =
      [(''1&A|1'', JNumber (Fin 1)), (''1&A|2'', JNumber (Fin 1)), (''1&A|3'', JNumber (Fin 1)),
       (''1&A|4'', JNumber (Fin 1)), (''1&A|5'', JNumber (Fin 1)), (''1&A|6'', JNumber (Fin 1)),
       (''1&A|7'', JNumber (Fin 1))]\<rparr>"
  using
    C4_isCalibrated [of "\<lparr>mappings =
      [(''1&A|1'', JNumber (Fin 1)), (''1&A|2'', JNumber (Fin 1)), (''1&A|3'', JNumber (Fin 1)),
       (''1&A|4'', JNumber (Fin 1)), (''1&A|5'', JNumber (Fin 1)), (''1&A|6'', JNumber (Fin 1))]\<rparr>"]
    C4_isCalibrated [of "\<lparr>mappings =
      [(''1&A|1'', JNumber (Fin 1)), (''1&A|2'', JNumber (Fin 1)), (''1&A|3'', JNumber (Fin 1)),
       (''1&A|4'', JNumber (Fin 1)), (''1&A|5'', JNumber (Fin 1)), (''1&A|6'', JNumber (Fin 1)),
       (''1&A|7'', JNumber (Fin 1))]\<rparr>"]
  by simp

subsection \<open>C5\<close>

text \<open>
  C5. The mapping never holds two entries for one key: keys that are pairwise distinct
  before \<open>addMapping\<close> are pairwise distinct after it, whatever the arguments. When the
  location and parent normalize to a key that is already present, \<open>addMapping\<close> with a
  valid port number succeeds, the key then holds the new port number, and
  \<open>getMappingCount\<close> and the list of keys are the same before and after the call.
\<close>

theorem C5_overwrite_keeps_count:
  "(distinct (obj_keys (mappings m)) \<longrightarrow>
      distinct (obj_keys (mappings (snd (addMapping m location parent port))))) \<and>
   (normalizeLocation location parent = Some key \<and> obj_in key (mappings m) \<and>
      \<not> port_out_of_range port \<longrightarrow>
      fst (addMapping m location parent port) = Inr key \<and>
      obj_get (mappings (snd (addMapping m location parent port))) key = port \<and>
      getMappingCount (snd (addMapping m location parent port)) = getMappingCount m \<and>
      obj_keys (mappings (snd (addMapping m location parent port))) = obj_keys (mappings m))"
proof -
  have inv: "distinct (obj_keys (mappings m)) \<longrightarrow>
      distinct (obj_keys (mappings (snd (addMapping m location parent port))))"
    by (simp add: addMapping_def obj_keys_obj_set split: option.splits)
  have upd: "normalizeLocation location parent = Some key \<and> obj_in key (mappings m) \<and>
      \<not> port_out_of_range port \<longrightarrow>
      fst (addMapping m location parent port) = Inr key \<and>
      obj_get (mappings (snd (addMapping m location parent port))) key = port \<and>
      getMappingCount (snd (addMapping m location parent port)) = getMappingCount m \<and>
      obj_keys (mappings (snd (addMapping m location parent port))) = obj_keys (mappings m)"
  proof (rule impI)
    assume a: "normalizeLocation location parent = Some key \<and> obj_in key (mappings m) \<and>
        \<not> port_out_of_range port"
    then have "key \<noteq> []" by (auto dest: normalizeLocation_nonempty)
    with a show "fst (addMapping m location parent port) = Inr key \<and>
        obj_get (mappings (snd (addMapping m location parent port))) key = port \<and>
        getMappingCount (snd (addMapping m location parent port)) = getMappingCount m \<and>
        obj_keys (mappings (snd (addMapping m location parent port))) = obj_keys (mappings m)"
      by (simp add: addMapping_def getMappingCount_def obj_get_obj_set obj_keys_obj_set obj_in_iff)
  qed
  from inv upd show ?thesis by (rule conjI)
qed

theorem C5_overwrite_keeps_count_witness:
  "getMappingCount
     (snd (addMapping \<lparr>mappings = [(''9&238498F1|2'', JNumber (Fin 5))]\<rparr>
        (Some ''Port_#0002.Hub_#0008'')
        (Some (''USB'' @ CHR 0x5C # ''VID_2109&PID_0822'' @ CHR 0x5C # ''9&238498F1&0&3''))
        (JNumber (Fin 3)))) = 1 \<and>
   obj_get (mappings
     (snd (addMapping \<lparr>mappings = [(''9&238498F1|2'', JNumber (Fin 5))]\<rparr>
        (Some ''Port_#0002.Hub_#0008'')
        (Some (''USB'' @ CHR 0x5C # ''VID_2109&PID_0822'' @ CHR 0x5C # ''9&238498F1&0&3''))
        (JNumber (Fin 3))))) ''9&238498F1|2'' = JNumber (Fin 3)"
proof -
  have k: "normalizeLocation (Some ''Port_#0002.Hub_#0008'')
     (Some (''USB'' @ CHR 0x5C # ''VID_2109&PID_0822'' @ CHR 0x5C # ''9&238498F1&0&3''))
     = Some ''9&238498F1|2''"
    by (rule example_key)
  have i: "obj_in ''9&238498F1|2'' (mappings \<lparr>mappings = [(''9&238498F1|2'', JNumber (Fin 5))]\<rparr>)"
    by (simp add: obj_in_def)
  have r: "\<not> port_out_of_range (JNumber (Fin 3))"
    by (simp add: isInteger_Fin del: isInteger.simps)
  show ?thesis
    using C5_overwrite_keeps_count [of "\<lparr>mappings = [(''9&238498F1|2'', JNumber (Fin 5))]\<rparr>"
        "Some ''Port_#0002.Hub_#0008''"
        "Some (''USB'' @ CHR 0x5C # ''VID_2109&PID_0822'' @ CHR 0x5C # ''9&238498F1&0&3'')"
        "JNumber (Fin 3)" "''9&238498F1|2''"] k i r
    by (simp add: getMappingCount_def obj_keys_def)
qed

subsection \<open>C6\<close>

text \<open>
  C6. \<open>validate\<close> must fail on a document whose \<open>mappings\<close> field is not a mapping
  structure. The code does not for \<open>{"version": "1.0", "mappings": []}\<close>: the guard
  \<open>typeof data.mappings !== 'object'\<close>, whose message is "missing mappings object", lets
  arrays through, and the empty array has no entries for the loop to reject, so
  \<open>validate\<close> returns \<open>true\<close> although \<open>mappings\<close> is not an object.
\<close>

theorem C6_validate_accepts_empty_array:
  "validate (JObject [(''version'', JString ''1.0''), (''mappings'', JArray [])]) = Inr True \<and>
   (\<forall>ms. get_prop (JObject [(''version'', JString ''1.0''), (''mappings'', JArray [])]) ''mappings''
      \<noteq> JObject ms)"
  by (simp add: validate_def SCHEMA_VERSION_def obj_get_def)

theorem C6_validate_accepts_empty_array_witness:
  "validate (JObject [(''version'', JString ''1.0''), (''mappings'', JArray [])]) = Inr True"
  using C6_validate_accepts_empty_array by (rule conjunct1)

subsection \<open>C7\<close>

text \<open>
  C7 as stated fails: \<open>parseInt\<close> returns a double, so a run of digits above \<open>2^53\<close> need
  not come back as written. \<open>9007199254740993\<close> is \<open>2^53 + 1\<close>, which rounds to \<open>2^53\<close>.
\<close>

theorem C7_precision_counterexample:
  "extractPortIndex (Some ''Port_#9007199254740993'') = Some ''9007199254740992'' \<and>
   strip_leading_zeros ''9007199254740993'' = ''9007199254740993''"
proof -
  have p: "port_search ''Port_#9007199254740993'' = Some ''9007199254740993''"
    by (simp add: port_match_at_Cons6 toUpperCase_def toUpperCase_char_def is_digit_def)
  have v: "digits_val ''9007199254740993'' = 9007199254740993"
    by (simp add: digits_val_def digit_val_def)
  have r: "round_double 9007199254740993 = Finite 9007199254740992"
    by (simp add: round_double_54_eval)
  have "number_toString (Finite 9007199254740992) = ''9007199254740992''"
    using shortest_2_53 by (simp add: number_toString_def decimal_2_53)
  with extractPortIndex_Some[OF p] v r
  have "extractPortIndex (Some ''Port_#9007199254740993'') = Some ''9007199254740992''"
    by (simp add: parseInt10_def)
  moreover have "strip_leading_zeros ''9007199254740993'' = ''9007199254740993''"
    by (simp add: strip_leading_zeros_def)
  ultimately show ?thesis by blast
qed

text \<open>
  C7, amended. When a location holds \<open>Port_#\<close> (in any letter case) followed by a run of
  digits, with no earlier such occurrence, and the digits denote a number below \<open>2^53\<close>,
  \<open>extractPortIndex\<close> returns the digits with leading zeros stripped. An absent location,
  and a location in which no \<open>Port_#\<close> is followed by a digit, give absent.
\<close>

theorem C7_extractPortIndex:
  "(port_search (pre @ p) = None \<and> toUpperCase p = ''PORT_#'' \<and> ds \<noteq> [] \<and>
      list_all is_digit ds \<and> (rest = [] \<or> \<not> is_digit (hd rest)) \<and> digits_val ds < 2 ^ 53 \<longrightarrow>
      extractPortIndex (Some (pre @ p @ ds @ rest)) = Some (strip_leading_zeros ds)) \<and>
   extractPortIndex None = None \<and>
   ((\<forall>pre p d rest. l = pre @ p @ d # rest \<and> toUpperCase p = ''PORT_#'' \<longrightarrow> \<not> is_digit d) \<longrightarrow>
      extractPortIndex (Some l) = None)"
proof (intro conjI impI)
  assume a: "port_search (pre @ p) = None \<and> toUpperCase p = ''PORT_#'' \<and> ds \<noteq> [] \<and>
      list_all is_digit ds \<and> (rest = [] \<or> \<not> is_digit (hd rest)) \<and> digits_val ds < 2 ^ 53"
  then have s: "port_search (pre @ p @ ds @ rest) = Some ds"
    by (intro port_search_first) simp_all
  from a have "number_toString (parseInt10 ds) = decimal (digits_val ds)"
    by (simp add: parseInt10_def round_double_exact number_toString_exact)
  also from a have "\<dots> = strip_leading_zeros ds" by (intro decimal_digits_val) simp_all
  finally show "extractPortIndex (Some (pre @ p @ ds @ rest)) = Some (strip_leading_zeros ds)"
    using extractPortIndex_Some[OF s] by simp
next
  show "extractPortIndex None = None" by (simp add: extractPortIndex_def)
next
  assume n: "\<forall>pre p d rest. l = pre @ p @ d # rest \<and> toUpperCase p = ''PORT_#'' \<longrightarrow> \<not> is_digit d"
  have "port_search l = None"
  proof (cases "port_search l")
    case None
    then show ?thesis .
  next
    case (Some ds)
    from port_search_sound[OF Some] obtain pre p rest where
      l: "l = pre @ p @ ds @ rest" and p: "toUpperCase p = ''PORT_#''" and ds: "ds \<noteq> []"
      and dg: "list_all is_digit ds" by blast
    from ds obtain d ds' where d: "ds = d # ds'" by (cases ds) auto
    with l have "l = pre @ p @ d # (ds' @ rest)" by simp
    with n p have "\<not> is_digit d" by blast
    with dg d show ?thesis by simp
  qed
  then show "extractPortIndex (Some l) = None" by (simp add: extractPortIndex_None_iff)
qed

theorem C7_extractPortIndex_witness:
  "extractPortIndex (Some ''Port_#0003'') = Some ''3'' \<and>
   extractPortIndex (Some ''Port_#0000'') = Some ''0'' \<and>
   extractPortIndex (Some ''Port_#42'') = Some ''42'' \<and>
   extractPortIndex (Some ''Port_#0002.Hub_#0008'') = Some ''2'' \<and>
   extractPortIndex (Some ''Hub_#0008'') = None"
proof -
  have n: "port_search ([] @ ''Port_#'') = None"
    by (simp add: port_match_at_Cons6 port_match_at_short)
  have u: "toUpperCase ''Port_#'' = ''PORT_#''"
    by (simp add: toUpperCase_def toUpperCase_char_def)
  have dot: "\<not> is_digit (hd ''.Hub_#0008'')" by (simp add: is_digit_def)
  have 1: "extractPortIndex (Some ([] @ ''Port_#'' @ ''0003'' @ [])) = Some (strip_leading_zeros ''0003'')"
    using C7_extractPortIndex [of "[]" "''Port_#''" "''0003''" "[]"] n u
    by (simp add: is_digit_def digits_val_def digit_val_def)
  have 2: "extractPortIndex (Some ([] @ ''Port_#'' @ ''0000'' @ [])) = Some (strip_leading_zeros ''0000'')"
    using C7_extractPortIndex [of "[]" "''Port_#''" "''0000''" "[]"] n u
    by (simp add: is_digit_def digits_val_def digit_val_def)
  have 3: "extractPortIndex (Some ([] @ ''Port_#'' @ ''42'' @ [])) = Some (strip_leading_zeros ''42'')"
    using C7_extractPortIndex [of "[]" "''Port_#''" "''42''" "[]"] n u
    by (simp add: is_digit_def digits_val_def digit_val_def)
  have 4: "extractPortIndex (Some ([] @ ''Port_#'' @ ''0002'' @ ''.Hub_#0008''))
      = Some (strip_leading_zeros ''0002'')"
    using C7_extractPortIndex [of "[]" "''Port_#''" "''0002''" "''.Hub_#0008''"] n u dot
    by (simp add: is_digit_def digits_val_def digit_val_def)
  have h: "port_search ''Hub_#0008'' = None"
    by (simp add: port_match_at_Cons6 port_match_at_short toUpperCase_def toUpperCase_char_def)
  have "\<forall>pre p d rest. ''Hub_#0008'' = pre @ p @ d # rest \<and> toUpperCase p = ''PORT_#'' \<longrightarrow>
          \<not> is_digit d"
  proof (intro allI impI notI)
    fix pre p d rest
    assume "''Hub_#0008'' = pre @ p @ d # rest \<and> toUpperCase p = ''PORT_#''" and "is_digit d"
    with port_search_exists[of p d pre rest] h show False by simp
  qed
  then have 5: "extractPortIndex (Some ''Hub_#0008'') = None"
    using C7_extractPortIndex [of _ _ _ _ "''Hub_#0008''"] by blast
  from 1 2 3 4 5 show ?thesis by (simp add: strip_leading_zeros_def)
qed

subsection \<open>C8\<close>

text \<open>
  C8 as stated fails: the prefix pattern starts at a backslash and the extracted prefix
  has none, so applying \<open>extractChipPrefix\<close> to its own output gives absent.
\<close>

theorem C8_idempotence_counterexample:
  "extractChipPrefix
     (Some (''USB'' @ CHR 0x5C # ''VID_2109&PID_0822'' @ CHR 0x5C # ''9&238498F1&0&3''))
     = Some ''9&238498F1'' \<and>
   extractChipPrefix (extractChipPrefix
     (Some (''USB'' @ CHR 0x5C # ''VID_2109&PID_0822'' @ CHR 0x5C # ''9&238498F1&0&3'')))
     = None"
  by (simp add: chip_eval)

text \<open>
  C8, amended. Whenever \<open>extractChipPrefix\<close> succeeds, its result is already upper case
  (upper-casing it again changes nothing) and contains no backslash, so a second
  application to the bare prefix is absent; and two parent strings that differ only in
  the case of ASCII letters (in particular in the case of the hex digits) yield the same
  result.
\<close>

theorem C8_case_normalizing:
  "(extractChipPrefix parent = Some c \<longrightarrow>
      toUpperCase c = c \<and> extractChipPrefix (Some c) = None) \<and>
   (toUpperCase p = toUpperCase q \<longrightarrow>
      extractChipPrefix (Some p) = extractChipPrefix (Some q))"
proof (intro conjI impI)
  assume a: "extractChipPrefix parent = Some c"
  show "toUpperCase c = c" by (rule extractChipPrefix_upper_fixed[OF a])
  have "chip_search c = None"
    using extractChipPrefix_no_backslash[OF a] chip_search_needs_backslash[of c]
    by (cases "chip_search c") auto
  then show "extractChipPrefix (Some c) = None" by (simp add: extractChipPrefix_def)
next
  assume "toUpperCase p = toUpperCase q"
  then show "extractChipPrefix (Some p) = extractChipPrefix (Some q)"
    using extractChipPrefix_upper[of p] extractChipPrefix_upper[of q] by simp
qed

theorem C8_case_normalizing_witness:
  "extractChipPrefix
     (Some (''USB'' @ CHR 0x5C # ''VID_2109&PID_0822'' @ CHR 0x5C # ''9&238498f1&0&3''))
     = Some ''9&238498F1'' \<and>
   extractChipPrefix
     (Some (''USB'' @ CHR 0x5C # ''VID_2109&PID_0822'' @ CHR 0x5C # ''9&238498F1&0&3''))
     = Some ''9&238498F1'' \<and>
   toUpperCase ''9&238498F1'' = ''9&238498F1'' \<and>
   extractChipPrefix (Some ''9&238498F1'') = None"
proof -
  have u: "toUpperCase (''USB'' @ CHR 0x5C # ''VID_2109&PID_0822'' @ CHR 0x5C # ''9&238498f1&0&3'')
         = toUpperCase (''USB'' @ CHR 0x5C # ''VID_2109&PID_0822'' @ CHR 0x5C # ''9&238498F1&0&3'')"
    by (simp add: toUpperCase_def toUpperCase_char_def)
  have e: "extractChipPrefix
     (Some (''USB'' @ CHR 0x5C # ''VID_2109&PID_0822'' @ CHR 0x5C # ''9&238498F1&0&3''))
     = Some ''9&238498F1''"
    by (rule example_chip)
  from C8_case_normalizing
    [of "Some (''USB'' @ CHR 0x5C # ''VID_2109&PID_0822'' @ CHR 0x5C # ''9&238498F1&0&3'')"
      "''9&238498F1''"
      "''USB'' @ CHR 0x5C # ''VID_2109&PID_0822'' @ CHR 0x5C # ''9&238498f1&0&3''"
      "''USB'' @ CHR 0x5C # ''VID_2109&PID_0822'' @ CHR 0x5C # ''9&238498F1&0&3''"]
    u e
  show ?thesis by simp
qed

subsection \<open>C9\<close>

text \<open>
  C9. \<open>isKnownChip\<close> is true exactly when a chip prefix can be extracted from the parent
  and some mapping key has that prefix as its part before the first \<open>|\<close>; it is false when
  no prefix can be extracted or no key shares it. The location plays no role, so the
  answer is the same whether or not the port index occurs in any key.
\<close>

theorem C9_isKnownChip:
  "isKnownChip m location parent =
     (case extractChipPrefix parent of
        None \<Rightarrow> False
      | Some chipPrefix \<Rightarrow>
          list_ex (\<lambda>key. CHR ''|'' \<in> set key \<and> takeWhile (\<lambda>x. x \<noteq> CHR ''|'') key = chipPrefix)
            (obj_keys (mappings m))) \<and>
   isKnownChip m location parent = isKnownChip m location' parent"
proof (cases "extractChipPrefix parent")
  case None
  then show ?thesis by (simp add: isKnownChip_def)
next
  case (Some c)
  then show ?thesis
    using extractChipPrefix_nonempty[OF Some] startsWith_bar[OF extractChipPrefix_no_bar[OF Some]]
    by (simp add: isKnownChip_def)
qed

theorem C9_isKnownChip_witness:
  "isKnownChip \<lparr>mappings = [(''9&238498F1|2'', JNumber (Fin 5))]\<rparr>
     (Some ''Port_#0004.Hub_#0008'')
     (Some (''USB'' @ CHR 0x5C # ''VID_2109&PID_0822'' @ CHR 0x5C # ''9&238498F1&0&3'')) \<and>
   \<not> isKnownChip \<lparr>mappings = [(''8&11223344|2'', JNumber (Fin 5))]\<rparr>
     (Some ''Port_#0004.Hub_#0008'')
     (Some (''USB'' @ CHR 0x5C # ''VID_2109&PID_0822'' @ CHR 0x5C # ''9&238498F1&0&3'')) \<and>
   \<not> isKnownChip \<lparr>mappings = [(''9&238498F1|2'', JNumber (Fin 5))]\<rparr>
     (Some ''Port_#0004.Hub_#0008'') (Some ''USB'')"
proof -
  have n: "extractChipPrefix (Some ''USB'') = None"
    by (simp add: chip_eval)
  show ?thesis
    using example_chip n
      C9_isKnownChip [of "\<lparr>mappings = [(''9&238498F1|2'', JNumber (Fin 5))]\<rparr>"
        "Some ''Port_#0004.Hub_#0008''"
        "Some (''USB'' @ CHR 0x5C # ''VID_2109&PID_0822'' @ CHR 0x5C # ''9&238498F1&0&3'')"]
      C9_isKnownChip [of "\<lparr>mappings = [(''8&11223344|2'', JNumber (Fin 5))]\<rparr>"
        "Some ''Port_#0004.Hub_#0008''"
        "Some (''USB'' @ CHR 0x5C # ''VID_2109&PID_0822'' @ CHR 0x5C # ''9&238498F1&0&3'')"]
      C9_isKnownChip [of "\<lparr>mappings = [(''9&238498F1|2'', JNumber (Fin 5))]\<rparr>"
        "Some ''Port_#0004.Hub_#0008''" "Some ''USB''"]
    by (simp add: obj_keys_def)
qed

subsection \<open>C10\<close>

text \<open>
  C10. For a mapper whose stored values are all integers from 1 to 7: \<open>getPhysicalPort\<close>
  returns a non-absent value exactly when \<open>hasMapping\<close> is true, and then it is the
  stored value; \<open>getExistingPort\<close> returns what \<open>getPhysicalPort\<close> returns; when the
  normalization fails both lookups return absent and \<open>hasMapping\<close> returns false.
\<close>

theorem C10_query_variants:
  assumes "\<forall>v \<in> snd ` set (mappings m). \<not> port_out_of_range v"
  shows "(getPhysicalPort m location parent \<noteq> JNull \<longleftrightarrow> hasMapping m location parent) \<and>
         getExistingPort m location parent = getPhysicalPort m location parent \<and>
         (hasMapping m location parent \<longrightarrow>
            (\<exists>key. normalizeLocation location parent = Some key \<and>
                   getPhysicalPort m location parent = obj_get (mappings m) key)) \<and>
         (normalizeLocation location parent = None \<longrightarrow>
            getPhysicalPort m location parent = JNull \<and>
            getExistingPort m location parent = JNull \<and>
            \<not> hasMapping m location parent)"
proof (cases "normalizeLocation location parent")
  case None
  then show ?thesis by (simp add: getPhysicalPort_def getExistingPort_def hasMapping_def)
next
  case (Some key)
  note ne = normalizeLocation_nonempty[OF Some]
  show ?thesis
  proof (cases "obj_in key (mappings m)")
    case True
    from obj_get_in_range[OF assms True] Some ne True show ?thesis
      by (simp add: getPhysicalPort_def getExistingPort_def hasMapping_def js_or_def)
  next
    case False
    from obj_get_absent[OF False] Some ne False show ?thesis
      by (simp add: getPhysicalPort_def getExistingPort_def hasMapping_def js_or_def)
  qed
qed

theorem C10_query_variants_witness:
  "hasMapping \<lparr>mappings = [(''9&238498F1|2'', JNumber (Fin 5))]\<rparr>
     (Some ''Port_#0002.Hub_#0008'')
     (Some (''USB'' @ CHR 0x5C # ''VID_2109&PID_0822'' @ CHR 0x5C # ''9&238498F1&0&3'')) \<and>
   getExistingPort \<lparr>mappings = [(''9&238498F1|2'', JNumber (Fin 5))]\<rparr>
     (Some ''Port_#0002.Hub_#0008'')
     (Some (''USB'' @ CHR 0x5C # ''VID_2109&PID_0822'' @ CHR 0x5C # ''9&238498F1&0&3''))
     = JNumber (Fin 5)"
proof -
  have a: "\<forall>v \<in> snd ` set (mappings \<lparr>mappings = [(''9&238498F1|2'', JNumber (Fin 5))]\<rparr>).
             \<not> port_out_of_range v"
    by (simp add: isInteger_Fin del: isInteger.simps)
  have g: "getPhysicalPort \<lparr>mappings = [(''9&238498F1|2'', JNumber (Fin 5))]\<rparr>
     (Some ''Port_#0002.Hub_#0008'')
     (Some (''USB'' @ CHR 0x5C # ''VID_2109&PID_0822'' @ CHR 0x5C # ''9&238498F1&0&3''))
     = JNumber (Fin 5)"
    using example_key by (simp add: getPhysicalPort_def obj_get_def js_or_def)
  show ?thesis
    using C10_query_variants [OF a, of "Some ''Port_#0002.Hub_#0008''"
        "Some (''USB'' @ CHR 0x5C # ''VID_2109&PID_0822'' @ CHR 0x5C # ''9&238498F1&0&3'')"] g
    by simp
qed

end
